theory Spec2Isabelle
  imports Complex_Main "HOL-Library.Multiset"
begin

section \<open>GPCData: the dataset container of AutoGPC (gpcdata.py)\<close>

text \<open>
  A shallow embedding of the class \<^verbatim>\<open>GPCData\<close>. The object is a record; every method
  takes the object and returns its outcome together with the object as the call leaves it,
  so that an exception raised after (or before) an attribute was assigned is told apart.
  Array entries are modelled as reals: rounding of floating-point subtraction is not modelled.
\<close>

subsection \<open>Exceptions\<close>

text \<open>
  The Python exceptions the class can raise. A failed \<^verbatim>\<open>assert\<close> carries its message.
  A reduction of an empty array (\<^verbatim>\<open>min\<close>, \<^verbatim>\<open>max\<close>) raises \<^verbatim>\<open>ValueError\<close>; an index
  out of bounds raises \<^verbatim>\<open>IndexError\<close>.
\<close>

datatype error = AssertionError string | ValueError | IndexError

subsection \<open>Two-dimensional arrays\<close>

text \<open>
  A numpy array of shape \<open>(N, D)\<close>: the list of its \<open>N\<close> rows, and \<open>D\<close> kept apart so that an
  array without rows still has a number of columns. numpy arrays are rectangular:
  \<open>wf_array\<close> says so.
\<close>

record ndarray2 =
  ncols :: nat
  rows :: "real list list"

definition wf_array :: "ndarray2 \<Rightarrow> bool" where
  "wf_array A = list_all (\<lambda>r. length r = ncols A) (rows A)"

text \<open>\<^verbatim>\<open>A[:, i]\<close>, for a column index within the shape.\<close>

definition column :: "ndarray2 \<Rightarrow> nat \<Rightarrow> real list" where
  "column A i = map (\<lambda>r. r ! i) (rows A)"

text \<open>\<^verbatim>\<open>A[ind]\<close> with an array of row indices: the rows at those indices, in that order.\<close>

definition take_rows :: "ndarray2 \<Rightarrow> nat list \<Rightarrow> error + ndarray2" where
  "take_rows A ind =
     (if list_all (\<lambda>i. i < length (rows A)) ind
      then Inr \<lparr>ncols = ncols A, rows = map (\<lambda>i. rows A ! i) ind\<rparr>
      else Inl IndexError)"

text \<open>
  \<^verbatim>\<open>a[0, dims]\<close> on a \<open>1 \<times> D\<close> array whose only row is \<open>a\<close>, with a list of integer indices:
  an index \<open>i\<close> with \<open>-D \<le> i < D\<close> is accepted, a negative one counting from the end.
\<close>

definition take_dims :: "real list \<Rightarrow> int list \<Rightarrow> error + real list" where
  "take_dims a dims =
     (if list_all (\<lambda>i. - int (length a) \<le> i \<and> i < int (length a)) dims
      then Inr (map (\<lambda>i. a ! nat (if i < 0 then i + int (length a) else i)) dims)
      else Inl IndexError)"

text \<open>\<^verbatim>\<open>a.max()\<close> and \<^verbatim>\<open>a.min()\<close> of a one-dimensional array.\<close>

definition amax :: "real list \<Rightarrow> error + real" where
  "amax a = (case a of [] \<Rightarrow> Inl ValueError | x # xs \<Rightarrow> Inr (fold max xs x))"

definition amin :: "real list \<Rightarrow> error + real" where
  "amin a = (case a of [] \<Rightarrow> Inl ValueError | x # xs \<Rightarrow> Inr (fold min xs x))"

text \<open>
  \<^verbatim>\<open>A.max(axis=0, keepdims=True)\<close> and \<^verbatim>\<open>A.min(axis=0, keepdims=True)\<close>: the only row of
  the \<open>1 \<times> D\<close> result. Reducing along an axis of length 0 raises, whatever \<open>D\<close> is.
\<close>

definition amax0 :: "ndarray2 \<Rightarrow> error + real list" where
  "amax0 A =
     (case rows A of [] \<Rightarrow> Inl ValueError
      | r # rs \<Rightarrow> Inr (map (\<lambda>j. fold max (map (\<lambda>q. q ! j) rs) (r ! j)) [0..<ncols A]))"

definition amin0 :: "ndarray2 \<Rightarrow> error + real list" where
  "amin0 A =
     (case rows A of [] \<Rightarrow> Inl ValueError
      | r # rs \<Rightarrow> Inr (map (\<lambda>j. fold min (map (\<lambda>q. q ! j) rs) (r ! j)) [0..<ncols A]))"

text \<open>\<^verbatim>\<open>np.unique(a)\<close>: sort, then keep the first of each run of equal entries.\<close>

definition unique :: "real list \<Rightarrow> real list" where
  "unique a = remdups_adj (sort a)"

text \<open>\<^verbatim>\<open>np.diff(a)\<close>, that is \<^verbatim>\<open>a[1:] - a[:-1]\<close>.\<close>

definition diff :: "real list \<Rightarrow> real list" where
  "diff a = map2 (\<lambda>x y. x - y) (tl a) (butlast a)"

text \<open>\<^verbatim>\<open>np.vstack((lower, upper))\<close> of two one-dimensional arrays.\<close>

definition vstack :: "real list \<Rightarrow> real list \<Rightarrow> error + ndarray2" where
  "vstack lower upper =
     (if length lower = length upper
      then Inr \<lparr>ncols = length lower, rows = [lower, upper]\<rparr>
      else Inl ValueError)"

subsection \<open>The object\<close>

text \<open>
  The four lists \<^verbatim>\<open>(X, Y, XT, YT)\<close> that \<^verbatim>\<open>kFoldSplits\<close> returns, and the attributes of
  the object. An attribute that was never assigned (\<^verbatim>\<open>hasattr\<close> is false) is \<open>None\<close>.
  \<open>xranges\<close> and \<open>minseps\<close> are \<open>1 \<times> D\<close> arrays, kept as their only row.
\<close>

type_synonym splits = "ndarray2 list \<times> ndarray2 list \<times> ndarray2 list \<times> ndarray2 list"

record GPCData =
  X :: ndarray2
  Y :: ndarray2
  XLabel :: "string list"
  YLabel :: "string list"
  xranges :: "real list option"
  minseps :: "real list option"
  splits :: "splits option"
  nFolds :: "int option"

subsection \<open>Construction\<close>

text \<open>
  A label argument: \<^verbatim>\<open>None\<close>, a list, a tuple, or an object that is neither (a string, a
  dictionary, an array).
\<close>

datatype pylabels = PyNone | PyList "string list" | PyTuple "string list" | PyOther

text \<open>\<^verbatim>\<open>'{0}'.format(n)\<close> for a natural number: its decimal digits.\<close>

fun format_nat :: "nat \<Rightarrow> string" where
  "format_nat n =
     (if n < 10 then [''0123456789'' ! n]
      else format_nat (n div 10) @ [''0123456789'' ! (n mod 10)])"

text \<open>\<^verbatim>\<open>'$x_{{{0}}}$'.format(d + 1)\<close>\<close>

definition default_xlabel :: "nat \<Rightarrow> string" where
  "default_xlabel d = ''$x_{'' @ format_nat (d + 1) @ ''}$''"

text \<open>
  \<^verbatim>\<open>__init__\<close>. The arguments are two-dimensional arrays by their type, so the first three
  assertions of the source (\<^verbatim>\<open>isinstance\<close>, \<^verbatim>\<open>ndim == 2\<close>) cannot fail here; the checks on
  the shape of \<^verbatim>\<open>Y\<close> remain.
\<close>

definition init :: "ndarray2 \<Rightarrow> ndarray2 \<Rightarrow> pylabels \<Rightarrow> pylabels \<Rightarrow> error + GPCData" where
  "init x y xlabel ylabel =
     (if ncols y \<noteq> 1 then Inl (AssertionError ''Y must be a vector'')
      else if length (rows y) \<noteq> length (rows x)
        then Inl (AssertionError ''X and Y must contain the same number of entries'')
      else Inr \<lparr>
        X = x, Y = y,
        XLabel =
          (case xlabel of
             PyList l \<Rightarrow> if length l = ncols x then l else map default_xlabel [0..<ncols x]
           | PyTuple l \<Rightarrow> if length l = ncols x then l else map default_xlabel [0..<ncols x]
           | _ \<Rightarrow> map default_xlabel [0..<ncols x]),
        YLabel =
          (case ylabel of
             PyList l \<Rightarrow> if length l = 2 then l else [''negative'', ''positive'']
           | PyTuple l \<Rightarrow> if length l = 2 then l else [''negative'', ''positive'']
           | _ \<Rightarrow> [''negative'', ''positive'']),
        xranges = None, minseps = None, splits = None, nFolds = None\<rparr>)"

definition getNum :: "GPCData \<Rightarrow> nat" where
  "getNum self = length (rows (X self))"

definition getDim :: "GPCData \<Rightarrow> nat" where
  "getDim self = ncols (X self)"

subsection \<open>Range and minimum separation\<close>

text \<open>
  The default of the argument \<open>dims\<close>, which is \<open>None\<close> or a list of integer indices:
  \<^verbatim>\<open>if dims is None: dims = range(self.getDim())\<close>.
\<close>

definition dims_or_all :: "GPCData \<Rightarrow> int list option \<Rightarrow> int list" where
  "dims_or_all self dims0 =
     (case dims0 of None \<Rightarrow> map int [0..<getDim self] | Some ds \<Rightarrow> ds)"

text \<open>
  \<^verbatim>\<open>inputRange\<close>. When the
  attribute \<^verbatim>\<open>xranges\<close> is absent it is computed for all columns and stored; the answer is
  \<^verbatim>\<open>self.xranges[0,dims]\<close>.
\<close>

definition compute_xranges :: "ndarray2 \<Rightarrow> error + real list" where
  "compute_xranges A =
     (case amax0 A of Inl e \<Rightarrow> Inl e
      | Inr mx \<Rightarrow>
         (case amin0 A of Inl e \<Rightarrow> Inl e
          | Inr mn \<Rightarrow> Inr (map2 (\<lambda>a b. a - b) mx mn)))"

definition inputRange :: "GPCData \<Rightarrow> int list option \<Rightarrow> (error + real list) \<times> GPCData" where
  "inputRange self dims0 =
     (let dims = dims_or_all self dims0 in
      case xranges self of
        Some xr \<Rightarrow> (take_dims xr dims, self)
      | None \<Rightarrow>
         (case compute_xranges (X self) of
            Inl e \<Rightarrow> (Inl e, self)
          | Inr xr \<Rightarrow> (take_dims xr dims, self\<lparr>xranges := Some xr\<rparr>)))"

text \<open>
  The loop of \<^verbatim>\<open>minSeparation\<close> over \<^verbatim>\<open>range(ndim)\<close>: cell \<open>i\<close> of the fresh array is
  assigned the least difference of neighbours among the sorted distinct values of column
  \<open>i\<close>. The fresh array \<^verbatim>\<open>np.ndarray((1,ndim))\<close> is not initialised by numpy; it is taken as
  zeros here, and the loop overwrites every cell. An exception leaves the loop at once.
\<close>

fun minseps_loop :: "ndarray2 \<Rightarrow> nat list \<Rightarrow> real list \<Rightarrow> error + real list" where
  "minseps_loop A [] ms = Inr ms"
| "minseps_loop A (i # todo) ms =
     (case amin (diff (unique (column A i))) of
        Inl e \<Rightarrow> Inl e
      | Inr m \<Rightarrow> minseps_loop A todo (ms[i := m]))"

definition compute_minseps :: "ndarray2 \<Rightarrow> error + real list" where
  "compute_minseps A = minseps_loop A [0..<ncols A] (replicate (ncols A) 0)"

definition minSeparation :: "GPCData \<Rightarrow> int list option \<Rightarrow> (error + real list) \<times> GPCData" where
  "minSeparation self dims0 =
     (let dims = dims_or_all self dims0 in
      case minseps self of
        Some ms \<Rightarrow> (take_dims ms dims, self)
      | None \<Rightarrow>
         (case compute_minseps (X self) of
            Inl e \<Rightarrow> (Inl e, self)
          | Inr ms \<Rightarrow> (take_dims ms dims, self\<lparr>minseps := Some ms\<rparr>)))"

subsection \<open>Bounds of the lengthscale and of the period\<close>

definition getLengthscaleBounds ::
  "GPCData \<Rightarrow> int list option \<Rightarrow> (error + ndarray2) \<times> GPCData" where
  "getLengthscaleBounds self dims0 =
     (let dims = dims_or_all self dims0 in
      case minSeparation self (Some dims) of
        (Inl e, self1) \<Rightarrow> (Inl e, self1)
      | (Inr lower, self1) \<Rightarrow>
         (case inputRange self1 (Some dims) of
            (Inl e, self2) \<Rightarrow> (Inl e, self2)
          | (Inr r, self2) \<Rightarrow> (vstack lower (map (\<lambda>v. v * 2) r), self2)))"

definition getPeriodBounds ::
  "GPCData \<Rightarrow> int list option \<Rightarrow> (error + ndarray2) \<times> GPCData" where
  "getPeriodBounds self dims0 = getLengthscaleBounds self dims0"

subsection \<open>Cross-validation folds\<close>

text \<open>
  Modelled from the spec: \<^verbatim>\<open>KFold\<close> is imported from scikit-learn
  (\<^verbatim>\<open>sklearn.cross_validation\<close>) and is not part of the repository. The specification asks
  of it to partition the \<open>N\<close> row indices into \<open>k\<close> disjoint, size-balanced blocks, shuffling
  before blocking. The model follows the library: the indices \<open>0, ..., n - 1\<close> are shuffled,
  the shuffled sequence is cut into \<open>k\<close> consecutive blocks, the first \<open>n mod k\<close> of length
  \<open>n div k + 1\<close> and the others of length \<open>n div k\<close>; each fold yields the indices outside
  its block and the indices inside its block, both in increasing order (they are read off a
  mask). The outcome \<open>idxs\<close> of the shuffle is an argument: the random generator is not
  modelled. The library refuses \<open>n_folds \<le> 1\<close> and \<open>n_folds > n\<close> with a \<^verbatim>\<open>ValueError\<close>.
\<close>

definition fold_sizes :: "nat \<Rightarrow> nat \<Rightarrow> nat list" where
  "fold_sizes n k = map (\<lambda>i. n div k + (if i < n mod k then 1 else 0)) [0..<k]"

fun test_blocks :: "nat list \<Rightarrow> nat list \<Rightarrow> nat list list" where
  "test_blocks idxs [] = []"
| "test_blocks idxs (sz # szs) = take sz idxs # test_blocks (drop sz idxs) szs"

definition KFold :: "nat list \<Rightarrow> nat \<Rightarrow> int \<Rightarrow> error + (nat list \<times> nat list) list" where
  "KFold idxs n k =
     (if k \<le> 1 \<or> k > int n then Inl ValueError
      else Inr (map (\<lambda>b. (filter (\<lambda>i. i \<notin> set b) [0..<n], filter (\<lambda>i. i \<in> set b) [0..<n]))
                  (test_blocks idxs (fold_sizes n (nat k)))))"

text \<open>
  The loop of \<^verbatim>\<open>kFoldSplits\<close> over the folds: the rows of \<^verbatim>\<open>X\<close> and \<^verbatim>\<open>Y\<close> at the training
  indices and at the test indices are appended to the four lists.
\<close>

fun splits_loop ::
  "ndarray2 \<Rightarrow> ndarray2 \<Rightarrow> (nat list \<times> nat list) list \<Rightarrow> splits \<Rightarrow> error + splits" where
  "splits_loop A B [] acc = Inr acc"
| "splits_loop A B ((train_ind, test_ind) # kf) (xs, ys, xts, yts) =
     (case take_rows A train_ind of Inl e \<Rightarrow> Inl e | Inr xtr \<Rightarrow>
     (case take_rows B train_ind of Inl e \<Rightarrow> Inl e | Inr ytr \<Rightarrow>
     (case take_rows A test_ind of Inl e \<Rightarrow> Inl e | Inr xte \<Rightarrow>
     (case take_rows B test_ind of Inl e \<Rightarrow> Inl e | Inr yte \<Rightarrow>
        splits_loop A B kf (xs @ [xtr], ys @ [ytr], xts @ [xte], yts @ [yte])))))"

text \<open>The \<^verbatim>\<open>else\<close> branch of \<^verbatim>\<open>kFoldSplits\<close>, up to the value of \<^verbatim>\<open>ret\<close>.\<close>

definition compute_splits :: "nat list \<Rightarrow> ndarray2 \<Rightarrow> ndarray2 \<Rightarrow> int \<Rightarrow> error + splits" where
  "compute_splits idxs A B k =
     (if k = 1 then Inr ([A], [B], [A], [B])
      else
        (case KFold idxs (length (rows A)) k of
           Inl e \<Rightarrow> Inl e
         | Inr kf \<Rightarrow> splits_loop A B kf ([], [], [], [])))"

text \<open>
  The test \<^verbatim>\<open>hasattr(self, 'splits') and hasattr(self, 'nFolds') and self.nFolds == k\<close>,
  giving the cached value when it holds.
\<close>

definition cached_splits :: "GPCData \<Rightarrow> int \<Rightarrow> splits option" where
  "cached_splits self k =
     (case splits self of
        None \<Rightarrow> None
      | Some cached \<Rightarrow>
         (case nFolds self of
            None \<Rightarrow> None
          | Some nf \<Rightarrow> if nf = k then Some cached else None))"

text \<open>
  \<^verbatim>\<open>kFoldSplits\<close>; \<open>idxs\<close> is what the shuffle gives, should this call reach it.
\<close>

definition kFoldSplits :: "nat list \<Rightarrow> GPCData \<Rightarrow> int \<Rightarrow> (error + splits) \<times> GPCData" where
  "kFoldSplits idxs self k =
     (if \<not> (k > 0 \<and> k \<le> int (getNum self))
      then (Inl (AssertionError ''Invalid number of folds''), self)
      else
        (case cached_splits self k of
           Some cached \<Rightarrow> (Inr cached, self)
         | None \<Rightarrow>
            (case compute_splits idxs (X self) (Y self) k of
               Inl e \<Rightarrow> (Inl e, self)
             | Inr ret \<Rightarrow> (Inr ret, self\<lparr>splits := Some ret, nFolds := Some k\<rparr>))))"

subsection \<open>Valid datasets\<close>

text \<open>
  What a shuffle of \<^verbatim>\<open>np.arange(n)\<close> can give: a rearrangement of \<open>0, ..., n - 1\<close>.
\<close>

definition is_shuffle :: "nat \<Rightarrow> nat list \<Rightarrow> bool" where
  "is_shuffle n idxs = (sort idxs = [0..<n])"

text \<open>
  The caches of an object hold what the methods store in them: an attribute is absent, or
  it has the value its method computes from the arrays (for the folds, with some shuffle).
\<close>

definition cache_ok :: "GPCData \<Rightarrow> bool" where
  "cache_ok self =
     ((case xranges self of None \<Rightarrow> True | Some xr \<Rightarrow> compute_xranges (X self) = Inr xr) \<and>
      (case minseps self of None \<Rightarrow> True | Some ms \<Rightarrow> compute_minseps (X self) = Inr ms) \<and>
      (case splits self of
         None \<Rightarrow> True
       | Some cached \<Rightarrow>
          (case nFolds self of
             None \<Rightarrow> True
           | Some nf \<Rightarrow>
               0 < nf \<and> nf \<le> int (getNum self) \<and>
               (\<exists>idxs. is_shuffle (getNum self) idxs \<and>
                  compute_splits idxs (X self) (Y self) nf = Inr cached))))"

text \<open>
  A valid dataset: the arrays are rectangular and have the shapes the constructor asserts,
  and the caches are as the methods leave them. The constructor gives a valid dataset
  and every method keeps it valid (lemmas \<open>init_valid\<close> and \<open>*_valid\<close> below).
\<close>

definition valid :: "GPCData \<Rightarrow> bool" where
  "valid self =
     (wf_array (X self) \<and> wf_array (Y self) \<and> ncols (Y self) = 1 \<and>
      length (rows (Y self)) = length (rows (X self)) \<and> cache_ok self)"

text \<open>The rows of an array at a list of indices within its shape, and the indices of
  \<open>0, ..., n - 1\<close> outside a block, in increasing order.\<close>

definition rows_at :: "ndarray2 \<Rightarrow> nat list \<Rightarrow> ndarray2" where
  "rows_at A ind = \<lparr>ncols = ncols A, rows = map (\<lambda>i. rows A ! i) ind\<rparr>"

definition complement :: "nat \<Rightarrow> nat list \<Rightarrow> nat list" where
  "complement n t = filter (\<lambda>i. i \<notin> set t) [0..<n]"

text \<open>The test indices of the folds, as \<open>KFold\<close> yields them.\<close>

definition test_indices :: "nat list \<Rightarrow> nat \<Rightarrow> int \<Rightarrow> nat list list" where
  "test_indices idxs n k = (case KFold idxs n k of Inl e \<Rightarrow> [] | Inr kf \<Rightarrow> map snd kf)"

text \<open>
  A \<open>k\<close>-fold partition of a dataset, in the specification's words: for \<open>k = 1\<close> the single
  training set and the single test set are both the whole dataset; for \<open>k > 1\<close> there are
  \<open>k\<close> test blocks of row indices in which every row index occurs exactly once, the test
  set of a fold holds the rows of its block and its training set the rows outside it.
\<close>

definition kfold_partition :: "ndarray2 \<Rightarrow> ndarray2 \<Rightarrow> int \<Rightarrow> splits \<Rightarrow> bool" where
  "kfold_partition A B k ret =
     (if k = 1 then ret = ([A], [B], [A], [B])
      else
        (\<exists>tests. length tests = nat k \<and> mset (concat tests) = mset [0..<length (rows A)] \<and>
           ret = (map (\<lambda>t. rows_at A (complement (length (rows A)) t)) tests,
                  map (\<lambda>t. rows_at B (complement (length (rows A)) t)) tests,
                  map (rows_at A) tests,
                  map (rows_at B) tests)))"

text \<open>
  The range of a column computed directly, \<^verbatim>\<open>max(inputs[:,d]) - min(inputs[:,d])\<close>, in the
  specification's words.
\<close>

definition range_direct :: "ndarray2 \<Rightarrow> nat \<Rightarrow> real" where
  "range_direct A d = Max (set (column A d)) - Min (set (column A d))"

text \<open>
  The minimum separation of a column in the specification's words: take the distinct values
  of the column in increasing order; the result is the least difference between two
  neighbours of that sequence.
\<close>

definition adjacent_gaps :: "real list \<Rightarrow> real list" where
  "adjacent_gaps ys = map (\<lambda>i. ys ! Suc i - ys ! i) [0..<length ys - 1]"

definition min_gap :: "real list \<Rightarrow> real" where
  "min_gap col = Min (set (adjacent_gaps (sorted_list_of_set (set col))))"

text \<open>Some input dimension contains fewer than two distinct values.\<close>

definition degenerate :: "ndarray2 \<Rightarrow> bool" where
  "degenerate A = (\<exists>d < ncols A. card (set (column A d)) < 2)"

text \<open>How two input matrices can be related: one is a rearrangement of the rows of the
  other; they have the same rows up to repetition; their columns have the same sets of
  values.\<close>

definition row_permutation :: "ndarray2 \<Rightarrow> ndarray2 \<Rightarrow> bool" where
  "row_permutation A B = (ncols A = ncols B \<and> mset (rows A) = mset (rows B))"

definition same_rows_up_to_duplicates :: "ndarray2 \<Rightarrow> ndarray2 \<Rightarrow> bool" where
  "same_rows_up_to_duplicates A B = (ncols A = ncols B \<and> set (rows A) = set (rows B))"

definition same_column_values :: "ndarray2 \<Rightarrow> ndarray2 \<Rightarrow> bool" where
  "same_column_values A B =
     (ncols A = ncols B \<and> (\<forall>d < ncols A. set (column A d) = set (column B d)))"

text \<open>The dataset of the specification's example: six points in one dimension, with
  alternating classes.\<close>

definition example_X :: ndarray2 where
  "example_X = \<lparr>ncols = 1, rows = [[1], [2], [3], [4], [5], [6]]\<rparr>"

definition example_Y :: ndarray2 where
  "example_Y = \<lparr>ncols = 1, rows = [[0], [1], [0], [1], [0], [1]]\<rparr>"

definition example_data :: GPCData where
  "example_data =
     \<lparr>X = example_X, Y = example_Y, XLabel = [''$x_{1}$''],
      YLabel = [''negative'', ''positive''],
      xranges = None, minseps = None, splits = None, nFolds = None\<rparr>"

text \<open>What \<open>kFoldSplits(3)\<close> returns on the example when the shuffle gives
  \<open>3, 1, 5, 0, 2, 4\<close>, and the object after that call.\<close>

definition example_ret3 :: splits where
  "example_ret3 =
     ([\<lparr>ncols = 1, rows = [[1], [3], [5], [6]]\<rparr>,
       \<lparr>ncols = 1, rows = [[2], [3], [4], [5]]\<rparr>,
       \<lparr>ncols = 1, rows = [[1], [2], [4], [6]]\<rparr>],
      [\<lparr>ncols = 1, rows = [[0], [0], [0], [1]]\<rparr>,
       \<lparr>ncols = 1, rows = [[1], [0], [1], [0]]\<rparr>,
       \<lparr>ncols = 1, rows = [[0], [1], [1], [1]]\<rparr>],
      [\<lparr>ncols = 1, rows = [[2], [4]]\<rparr>,
       \<lparr>ncols = 1, rows = [[1], [6]]\<rparr>,
       \<lparr>ncols = 1, rows = [[3], [5]]\<rparr>],
      [\<lparr>ncols = 1, rows = [[1], [1]]\<rparr>,
       \<lparr>ncols = 1, rows = [[0], [1]]\<rparr>,
       \<lparr>ncols = 1, rows = [[0], [0]]\<rparr>])"

definition example_cached3 :: GPCData where
  "example_cached3 = example_data\<lparr>splits := Some example_ret3, nFolds := Some 3\<rparr>"

text \<open>A dataset whose second input dimension is constant, and two datasets with the rows
  of the example rearranged and repeated.\<close>

definition constant_data :: GPCData where
  "constant_data =
     \<lparr>X = \<lparr>ncols = 2, rows = [[1, 7], [2, 7]]\<rparr>, Y = \<lparr>ncols = 1, rows = [[0], [1]]\<rparr>,
      XLabel = [''$x_{1}$'', ''$x_{2}$''], YLabel = [''negative'', ''positive''],
      xranges = None, minseps = None, splits = None, nFolds = None\<rparr>"

definition shuffled_data :: GPCData where
  "shuffled_data =
     example_data\<lparr>X := \<lparr>ncols = 1, rows = [[4], [2], [6], [1], [3], [5]]\<rparr>\<rparr>"

definition repeated_data :: GPCData where
  "repeated_data =
     example_data\<lparr>X := \<lparr>ncols = 1, rows = [[1], [2], [2], [3], [4], [5], [6], [6]]\<rparr>,
                  Y := \<lparr>ncols = 1, rows = [[0], [1], [1], [0], [1], [0], [1], [1]]\<rparr>\<rparr>"

section \<open>Properties\<close>

subsection \<open>The blocks of the folds\<close>

lemma length_test_blocks: "length (test_blocks idxs szs) = length szs"
  by (induction szs arbitrary: idxs) simp_all

lemma concat_test_blocks: "concat (test_blocks idxs szs) = take (sum_list szs) idxs"
  by (induction szs arbitrary: idxs) (simp_all add: take_add)

lemma sum_list_balanced:
  "sum_list (map (\<lambda>i. c + (if i < r then 1 else 0)) [0..<k]) = k * c + min r k"
  by (induction k) auto

lemma sum_list_fold_sizes: "0 < k \<Longrightarrow> sum_list (fold_sizes n k) = n"
  unfolding fold_sizes_def sum_list_balanced
  by (simp add: min_def)

lemma length_fold_sizes: "length (fold_sizes n k) = k"
  by (simp add: fold_sizes_def)

lemma is_shuffle_mset: "is_shuffle n idxs \<Longrightarrow> mset idxs = mset [0..<n]"
  unfolding is_shuffle_def by (metis mset_sort)

lemma is_shuffle_set: "is_shuffle n idxs \<Longrightarrow> set idxs = {0..<n}"
  unfolding is_shuffle_def by (metis set_sort set_upt)

lemma is_shuffle_distinct: "is_shuffle n idxs \<Longrightarrow> distinct idxs"
  unfolding is_shuffle_def by (metis distinct_sort distinct_upt)

lemma is_shuffle_length: "is_shuffle n idxs \<Longrightarrow> length idxs = n"
  unfolding is_shuffle_def by (metis length_sort length_upt diff_zero)

lemma is_shuffle_upt: "is_shuffle n [0..<n]"
  unfolding is_shuffle_def by (simp add: sorted_sort_id)

lemma concat_blocks_shuffle:
  "is_shuffle n idxs \<Longrightarrow> 0 < k \<Longrightarrow> concat (test_blocks idxs (fold_sizes n k)) = idxs"
  by (simp add: concat_test_blocks sum_list_fold_sizes is_shuffle_length)

lemma distinct_concat_disjoint:
  "distinct (concat xs) \<Longrightarrow> i < j \<Longrightarrow> j < length xs \<Longrightarrow> set (xs ! i) \<inter> set (xs ! j) = {}"
proof (induction xs arbitrary: i j)
  case Nil
  then show ?case by simp
next
  case (Cons y ys)
  show ?case
  proof (cases i)
    case 0
    with Cons.prems obtain j' where j: "j = Suc j'" "j' < length ys"
      by (cases j) auto
    then have "ys ! j' \<in> set ys" by simp
    with Cons.prems(1) have "set y \<inter> set (ys ! j') = {}" by auto
    with 0 j show ?thesis by simp
  next
    case (Suc i')
    with Cons.prems obtain j' where j: "j = Suc j'" "j' < length ys" "i' < j'"
      by (cases j) auto
    with Cons.IH[of i' j'] Cons.prems(1) Suc show ?thesis by simp
  qed
qed

lemma take_rows_ok:
  "\<forall>i\<in>set ind. i < length (rows A) \<Longrightarrow> take_rows A ind = Inr (rows_at A ind)"
  by (simp add: take_rows_def rows_at_def list_all_iff)

lemma splits_loop_ok:
  assumes "\<forall>p\<in>set kf. (\<forall>i\<in>set (fst p). i < n) \<and> (\<forall>i\<in>set (snd p). i < n)"
    and "length (rows A) = n" and "length (rows B) = n"
  shows "splits_loop A B kf (xs, ys, xts, yts) =
     Inr (xs @ map (\<lambda>p. rows_at A (fst p)) kf, ys @ map (\<lambda>p. rows_at B (fst p)) kf,
          xts @ map (\<lambda>p. rows_at A (snd p)) kf, yts @ map (\<lambda>p. rows_at B (snd p)) kf)"
  using assms
proof (induction kf arbitrary: xs ys xts yts)
  case Nil
  then show ?case by simp
next
  case (Cons p kf)
  obtain tr te where p: "p = (tr, te)" by (cases p)
  from Cons.prems p have "take_rows A tr = Inr (rows_at A tr)" "take_rows B tr = Inr (rows_at B tr)"
    "take_rows A te = Inr (rows_at A te)" "take_rows B te = Inr (rows_at B te)"
    by (simp_all add: take_rows_ok)
  moreover from Cons.prems have "\<forall>p\<in>set kf. (\<forall>i\<in>set (fst p). i < n) \<and> (\<forall>i\<in>set (snd p). i < n)"
    by simp
  ultimately show ?case
    using Cons.IH[OF _ Cons.prems(2,3)] p by simp
qed

lemma complement_filter: "complement n (filter (\<lambda>i. i \<in> set b) [0..<n]) = complement n b"
  unfolding complement_def by (rule filter_cong) auto

lemma test_indices_eq:
  "1 < k \<Longrightarrow> k \<le> int n \<Longrightarrow>
   test_indices idxs n k =
     map (\<lambda>b. filter (\<lambda>i. i \<in> set b) [0..<n]) (test_blocks idxs (fold_sizes n (nat k)))"
  by (simp add: KFold_def test_indices_def o_def)

lemma KFold_ok:
  assumes "1 < k" "k \<le> int n"
  shows "KFold idxs n k = Inr (map (\<lambda>t. (complement n t, t)) (test_indices idxs n k))"
proof -
  have "(\<lambda>b. (filter (\<lambda>i. i \<notin> set b) [0..<n], filter (\<lambda>i. i \<in> set b) [0..<n]))
      = (\<lambda>b. (complement n (filter (\<lambda>i. i \<in> set b) [0..<n]), filter (\<lambda>i. i \<in> set b) [0..<n]))"
    by (simp add: complement_filter) (simp add: complement_def)
  with assms show ?thesis
    by (simp add: test_indices_eq o_def) (simp add: KFold_def)
qed

lemma length_test_indices: "1 < k \<Longrightarrow> k \<le> int n \<Longrightarrow> length (test_indices idxs n k) = nat k"
  by (simp add: test_indices_eq length_test_blocks length_fold_sizes)

lemma test_indices_bound:
  "t \<in> set (test_indices idxs n k) \<Longrightarrow> i \<in> set t \<Longrightarrow> i < n"
  by (auto simp: test_indices_def KFold_def split: if_splits)

lemma compute_splits_one: "compute_splits idxs A B 1 = Inr ([A], [B], [A], [B])"
  by (simp add: compute_splits_def)

lemma compute_splits_folds:
  assumes "1 < k" "k \<le> int (length (rows A))" "length (rows B) = length (rows A)"
  shows "compute_splits idxs A B k =
     Inr (map (\<lambda>t. rows_at A (complement (length (rows A)) t)) (test_indices idxs (length (rows A)) k),
          map (\<lambda>t. rows_at B (complement (length (rows A)) t)) (test_indices idxs (length (rows A)) k),
          map (rows_at A) (test_indices idxs (length (rows A)) k),
          map (rows_at B) (test_indices idxs (length (rows A)) k))"
proof -
  let ?n = "length (rows A)"
  let ?kf = "map (\<lambda>t. (complement ?n t, t)) (test_indices idxs ?n k)"
  have "\<forall>p\<in>set ?kf. (\<forall>i\<in>set (fst p). i < ?n) \<and> (\<forall>i\<in>set (snd p). i < ?n)"
    by (auto simp: complement_def dest: test_indices_bound)
  from splits_loop_ok[OF this refl assms(3), of "[]" "[]" "[]" "[]"] assms(1,2)
  show ?thesis
    by (simp add: compute_splits_def KFold_ok o_def)
qed

lemma mset_concat_map_cong:
  "\<forall>b\<in>set bs. mset (f b) = mset b \<Longrightarrow> mset (concat (map f bs)) = mset (concat bs)"
  by (induction bs) simp_all

lemma mset_mask:
  assumes "distinct b" "set b \<subseteq> {0..<n}"
  shows "mset (filter (\<lambda>i. i \<in> set b) [0..<n]) = mset b"
proof -
  have "set (filter (\<lambda>i. i \<in> set b) [0..<n]) = set b"
    using assms(2) by auto
  moreover have "distinct (filter (\<lambda>i. i \<in> set b) [0..<n])" by simp
  ultimately show ?thesis
    using assms(1) set_eq_iff_mset_eq_distinct by blast
qed

lemma mset_concat_test_indices:
  assumes "is_shuffle n idxs" "1 < k" "k \<le> int n"
  shows "mset (concat (test_indices idxs n k)) = mset [0..<n]"
proof -
  let ?bs = "test_blocks idxs (fold_sizes n (nat k))"
  from assms have c: "concat ?bs = idxs"
    by (simp add: concat_blocks_shuffle)
  have "\<forall>b\<in>set ?bs. mset (filter (\<lambda>i. i \<in> set b) [0..<n]) = mset b"
  proof
    fix b assume b: "b \<in> set ?bs"
    from is_shuffle_distinct[OF assms(1)] c have "distinct (concat ?bs)" by simp
    with b have "distinct b" by (simp add: distinct_concat_iff)
    moreover from b c have "set b \<subseteq> set idxs"
      by (metis Sup_upper image_eqI set_concat)
    then have "set b \<subseteq> {0..<n}" using is_shuffle_set[OF assms(1)] by simp
    ultimately show "mset (filter (\<lambda>i. i \<in> set b) [0..<n]) = mset b"
      by (rule mset_mask)
  qed
  then have "mset (concat (map (\<lambda>b. filter (\<lambda>i. i \<in> set b) [0..<n]) ?bs)) = mset (concat ?bs)"
    by (rule mset_concat_map_cong)
  with c assms show ?thesis
    by (simp add: test_indices_eq is_shuffle_mset del: mset_upt)
qed

lemma compute_splits_partition:
  assumes "is_shuffle (length (rows A)) idxs" "0 < k" "k \<le> int (length (rows A))"
    "length (rows B) = length (rows A)"
  shows "\<exists>ret. compute_splits idxs A B k = Inr ret \<and> kfold_partition A B k ret"
proof (cases "k = 1")
  case True
  then show ?thesis by (simp add: compute_splits_one kfold_partition_def)
next
  case False
  with assms have k: "1 < k" by simp
  show ?thesis
    unfolding kfold_partition_def
    using compute_splits_folds[OF k assms(3,4), of idxs] False
      length_test_indices[OF k assms(3), of idxs]
      mset_concat_test_indices[OF assms(1) k assms(3)]
    by (auto simp del: mset_upt)
qed

lemma compute_splits_ok:
  assumes "0 < k" "k \<le> int (length (rows A))" "length (rows B) = length (rows A)"
  shows "\<exists>ret. compute_splits idxs A B k = Inr ret"
  using assms compute_splits_one[of idxs A B] compute_splits_folds[of k A B idxs]
  by (cases "k = 1") auto

lemma compute_splits_length:
  assumes "compute_splits idxs A B k = Inr (xs, ys, xts, yts)"
   "0 < k" "k \<le> int (length (rows A))" "length (rows B) = length (rows A)"
  shows "length xs = nat k \<and> length ys = nat k \<and> length xts = nat k \<and> length yts = nat k"
proof (cases "k = 1")
  case True
  with assms(1) show ?thesis by (auto simp: compute_splits_one)
next
  case False
  with assms have k: "1 < k" by simp
  from assms(1) compute_splits_folds[OF k assms(3,4), of idxs] length_test_indices[OF k assms(3), of idxs]
  show ?thesis by auto
qed

lemma partition_disjoint:
  assumes "mset (concat tests) = mset [0..<n]" "i < length tests" "j < length tests" "i \<noteq> j"
  shows "set (tests ! i) \<inter> set (tests ! j) = {}"
proof -
  from assms(1) have d: "distinct (concat tests)"
    by (metis distinct_upt mset_eq_imp_distinct_iff)
  show ?thesis
  proof (cases "i < j")
    case True
    then show ?thesis using distinct_concat_disjoint[OF d _ assms(3)] by simp
  next
    case False
    with assms(4) have "j < i" by simp
    then show ?thesis using distinct_concat_disjoint[OF d _ assms(2), of j] by auto
  qed
qed

lemma partition_cover:
  assumes "mset (concat tests) = mset [0..<n]"
  shows "(\<Union>t\<in>set tests. set t) = {0..<n}"
proof -
  from assms have "set (concat tests) = set [0..<n]" by (rule mset_eq_setD)
  then show ?thesis by simp
qed

subsection \<open>The calls of kFoldSplits\<close>

lemma example_valid: "valid example_data"
  by (simp add: valid_def cache_ok_def wf_array_def example_data_def example_X_def example_Y_def)

lemma example_num: "getNum example_data = 6"
  by (simp add: getNum_def example_data_def example_X_def)

lemma example_shuffle: "is_shuffle 6 [3, 1, 5, 0, 2, 4]"
  by (simp add: is_shuffle_def upt_rec)

lemma cached_splits_Some:
  "cached_splits self k = Some c \<longleftrightarrow> splits self = Some c \<and> nFolds self = Some k"
  by (auto simp: cached_splits_def split: option.splits)

lemma cached_splits_stored [simp]:
  "cached_splits (self\<lparr>splits := Some ret, nFolds := Some k\<rparr>) k' = (if k = k' then Some ret else None)"
  by (simp add: cached_splits_def)

lemma kFoldSplits_invalid:
  "k < 1 \<or> int (getNum self) < k \<Longrightarrow>
   kFoldSplits idxs self k = (Inl (AssertionError ''Invalid number of folds''), self)"
  by (auto simp: kFoldSplits_def)

lemma kFoldSplits_cached:
  "0 < k \<Longrightarrow> k \<le> int (getNum self) \<Longrightarrow> cached_splits self k = Some c \<Longrightarrow>
   kFoldSplits idxs self k = (Inr c, self)"
  by (simp add: kFoldSplits_def)

lemma kFoldSplits_fresh:
  "0 < k \<Longrightarrow> k \<le> int (getNum self) \<Longrightarrow> cached_splits self k = None \<Longrightarrow>
   compute_splits idxs (X self) (Y self) k = Inr ret \<Longrightarrow>
   kFoldSplits idxs self k = (Inr ret, self\<lparr>splits := Some ret, nFolds := Some k\<rparr>)"
  by (simp add: kFoldSplits_def)

lemma kFoldSplits_success:
  assumes "kFoldSplits idxs self k = (Inr ret, self')"
  shows "0 < k \<and> k \<le> int (getNum self) \<and> cached_splits self' k = Some ret \<and>
         getNum self' = getNum self \<and> X self' = X self \<and> Y self' = Y self \<and>
         (cached_splits self k = Some ret \<and> self' = self \<or>
          cached_splits self k = None \<and> compute_splits idxs (X self) (Y self) k = Inr ret \<and>
            self' = self\<lparr>splits := Some ret, nFolds := Some k\<rparr>)"
  using assms
  by (auto simp: kFoldSplits_def getNum_def split: if_splits option.splits sum.splits)

lemma valid_cached:
  assumes "valid self" "cached_splits self k = Some c"
  shows "0 < k \<and> k \<le> int (getNum self) \<and>
    (\<exists>idxs. is_shuffle (getNum self) idxs \<and> compute_splits idxs (X self) (Y self) k = Inr c)"
  using assms by (auto simp: valid_def cache_ok_def cached_splits_Some)

lemma example_fold3:
  "kFoldSplits [3, 1, 5, 0, 2, 4] example_data 3 = (Inr example_ret3, example_cached3)"
  by (simp add: kFoldSplits_def cached_splits_def compute_splits_def KFold_def fold_sizes_def
      take_rows_def getNum_def example_data_def example_X_def example_Y_def upt_rec
      example_ret3_def example_cached3_def)

lemma example_cached3_num: "getNum example_cached3 = 6"
  by (simp add: getNum_def example_cached3_def example_data_def example_X_def)

subsection \<open>Claims on kFoldSplits\<close>

text \<open>
  C6: on a valid dataset with \<open>N\<close> rows, \<open>kFoldSplits\<close> raises if and only if \<open>k < 1\<close> or
  \<open>k > N\<close>, and what it raises then is the failed assertion on the number of folds (the
  specification's \<open>InvalidFoldCountError\<close>); for every \<open>k\<close> from \<open>1\<close> to \<open>N\<close> it returns a
  result.
\<close>

theorem kFoldSplits_raises_iff:
  assumes "valid self"
  shows "((\<exists>e. fst (kFoldSplits idxs self k) = Inl e) \<longleftrightarrow> (k < 1 \<or> int (getNum self) < k)) \<and>
         ((k < 1 \<or> int (getNum self) < k) \<longrightarrow>
            fst (kFoldSplits idxs self k) = Inl (AssertionError ''Invalid number of folds'')) \<and>
         ((1 \<le> k \<and> k \<le> int (getNum self)) \<longrightarrow> (\<exists>ret. fst (kFoldSplits idxs self k) = Inr ret))"
proof -
  have bad: "fst (kFoldSplits idxs self k) = Inl (AssertionError ''Invalid number of folds'')"
    if "k < 1 \<or> int (getNum self) < k"
    using that by (simp add: kFoldSplits_invalid)
  have good: "\<exists>ret. fst (kFoldSplits idxs self k) = Inr ret"
    if k: "1 \<le> k \<and> k \<le> int (getNum self)"
  proof (cases "cached_splits self k")
    case None
    from assms have "length (rows (Y self)) = length (rows (X self))"
      by (simp add: valid_def)
    with k obtain ret where "compute_splits idxs (X self) (Y self) k = Inr ret"
      using compute_splits_ok[of k "X self" "Y self" idxs] by (auto simp: getNum_def)
    with k None have "fst (kFoldSplits idxs self k) = Inr ret"
      by (simp add: kFoldSplits_fresh)
    then show ?thesis ..
  next
    case (Some c)
    with k have "fst (kFoldSplits idxs self k) = Inr c"
      by (simp add: kFoldSplits_cached)
    then show ?thesis ..
  qed
  from bad good show ?thesis by (cases "k < 1 \<or> int (getNum self) < k") auto
qed

theorem kFoldSplits_raises_iff_witness:
  "valid example_data \<and>
   fst (kFoldSplits [3, 1, 5, 0, 2, 4] example_data 0) = Inl (AssertionError ''Invalid number of folds'') \<and>
   fst (kFoldSplits [3, 1, 5, 0, 2, 4] example_data 7) = Inl (AssertionError ''Invalid number of folds'') \<and>
   (\<exists>ret. fst (kFoldSplits [3, 1, 5, 0, 2, 4] example_data 3) = Inr ret)"
  using kFoldSplits_raises_iff[OF example_valid, of "[3, 1, 5, 0, 2, 4]" 0]
    kFoldSplits_raises_iff[OF example_valid, of "[3, 1, 5, 0, 2, 4]" 7]
    kFoldSplits_raises_iff[OF example_valid, of "[3, 1, 5, 0, 2, 4]" 3]
  by (simp add: example_num example_valid)

text \<open>
  C10: after a successful \<open>kFoldSplits(k)\<close>, a call with \<open>k' < 1\<close> or \<open>k' > N\<close> raises and
  leaves the object as it was, and a further call with the original \<open>k\<close> returns the same
  partition, whatever the shuffle would give.
\<close>

theorem kFoldSplits_failure_keeps_cache:
  assumes "kFoldSplits idxs self k = (Inr ret, self')"
    and "k' < 1 \<or> int (getNum self') < k'"
  shows "kFoldSplits idxs' self' k' = (Inl (AssertionError ''Invalid number of folds''), self') \<and>
         kFoldSplits idxs'' (snd (kFoldSplits idxs' self' k')) k = (Inr ret, self')"
proof -
  from assms(2) have 1: "kFoldSplits idxs' self' k' = (Inl (AssertionError ''Invalid number of folds''), self')"
    by (rule kFoldSplits_invalid)
  from kFoldSplits_success[OF assms(1)]
  have "kFoldSplits idxs'' self' k = (Inr ret, self')"
    by (simp add: kFoldSplits_cached)
  with 1 show ?thesis by simp
qed

theorem kFoldSplits_failure_keeps_cache_witness:
  "kFoldSplits [3, 1, 5, 0, 2, 4] example_data 3 = (Inr example_ret3, example_cached3) \<and>
   kFoldSplits [] example_cached3 0 =
     (Inl (AssertionError ''Invalid number of folds''), example_cached3) \<and>
   kFoldSplits [0, 1, 2, 3, 4, 5] (snd (kFoldSplits [] example_cached3 0)) 3 =
     (Inr example_ret3, example_cached3)"
proof -
  have "(0::int) < 1 \<or> int (getNum example_cached3) < 0" by simp
  from kFoldSplits_failure_keeps_cache[OF example_fold3 this, of "[]" "[0, 1, 2, 3, 4, 5]"]
    example_fold3
  show ?thesis by blast
qed

text \<open>
  C5: on a valid dataset with at least one row, \<open>kFoldSplits(1)\<close> returns four lists of
  length one; the training inputs and the test inputs are the whole array \<open>X\<close>, the training
  outputs and the test outputs the whole array \<open>Y\<close>.
\<close>

theorem kFoldSplits_one:
  assumes "valid self" and "1 \<le> getNum self"
  shows "fst (kFoldSplits idxs self 1) = Inr ([X self], [Y self], [X self], [Y self])"
proof (cases "cached_splits self 1")
  case None
  with assms(2) show ?thesis
    by (simp add: kFoldSplits_fresh[OF _ _ None compute_splits_one])
next
  case (Some c)
  from valid_cached[OF assms(1) Some] have "c = ([X self], [Y self], [X self], [Y self])"
    by (auto simp: compute_splits_one)
  with Some assms(2) show ?thesis by (simp add: kFoldSplits_cached)
qed

theorem kFoldSplits_one_witness:
  "valid example_data \<and> 1 \<le> getNum example_data \<and>
   fst (kFoldSplits [3, 1, 5, 0, 2, 4] example_data 1) =
     Inr ([example_X], [example_Y], [example_X], [example_Y])"
proof -
  have n: "1 \<le> getNum example_data" by (simp add: example_num)
  from kFoldSplits_one[OF example_valid n, of "[3, 1, 5, 0, 2, 4]"] example_valid n
  show ?thesis by (simp add: example_data_def)
qed

lemma kFoldSplits_valid:
  assumes "valid self" "is_shuffle (getNum self) idxs"
  shows "valid (snd (kFoldSplits idxs self k))"
proof (cases "0 < k \<and> k \<le> int (getNum self)")
  case False
  then have "k < 1 \<or> int (getNum self) < k" by auto
  with assms(1) show ?thesis by (simp add: kFoldSplits_invalid)
next
  case k: True
  show ?thesis
  proof (cases "cached_splits self k")
    case (Some c)
    with k assms(1) show ?thesis by (simp add: kFoldSplits_cached)
  next
    case None
    from assms(1) have len: "length (rows (Y self)) = length (rows (X self))"
      by (simp add: valid_def)
    from k len obtain ret where ret: "compute_splits idxs (X self) (Y self) k = Inr ret"
      using compute_splits_ok[of k "X self" "Y self" idxs] by (auto simp: getNum_def)
    with k None have "kFoldSplits idxs self k = (Inr ret, self\<lparr>splits := Some ret, nFolds := Some k\<rparr>)"
      by (simp add: kFoldSplits_fresh)
    moreover have "valid (self\<lparr>splits := Some ret, nFolds := Some k\<rparr>)"
      using assms k ret by (auto simp: valid_def cache_ok_def getNum_def split: option.splits)
    ultimately show ?thesis by simp
  qed
qed

lemma valid_cached_partition:
  assumes "valid self" "cached_splits self k = Some c"
  shows "kfold_partition (X self) (Y self) k c"
proof -
  from valid_cached[OF assms] obtain idxs where
    k: "0 < k" "k \<le> int (getNum self)" and sh: "is_shuffle (getNum self) idxs"
    and c: "compute_splits idxs (X self) (Y self) k = Inr c"
    by blast
  from assms(1) have len: "length (rows (Y self)) = length (rows (X self))"
    by (simp add: valid_def)
  from compute_splits_partition[OF _ k(1) _ len, of idxs] sh k(2) c
  show ?thesis by (auto simp: getNum_def)
qed

lemma kFoldSplits_partition:
  assumes "valid self" "is_shuffle (getNum self) idxs" "0 < k" "k \<le> int (getNum self)"
  shows "\<exists>ret self'. kFoldSplits idxs self k = (Inr ret, self') \<and>
           kfold_partition (X self) (Y self) k ret"
proof (cases "cached_splits self k")
  case (Some c)
  with assms(3,4) have "kFoldSplits idxs self k = (Inr c, self)"
    by (simp add: kFoldSplits_cached)
  with valid_cached_partition[OF assms(1) Some] show ?thesis by blast
next
  case None
  from assms(1) have len: "length (rows (Y self)) = length (rows (X self))"
    by (simp add: valid_def)
  from compute_splits_partition[OF _ assms(3) _ len, of idxs] assms(2,4)
  obtain ret where ret: "compute_splits idxs (X self) (Y self) k = Inr ret"
    "kfold_partition (X self) (Y self) k ret"
    by (auto simp: getNum_def)
  from kFoldSplits_fresh[OF assms(3,4) None ret(1)] ret(2) show ?thesis by blast
qed

text \<open>
  C4: on a valid dataset with \<open>N\<close> rows, for \<open>1 < k \<le> N\<close> and any outcome of the shuffle,
  \<open>kFoldSplits(k)\<close> returns \<open>k\<close> folds that come from \<open>k\<close> blocks of test indices: the blocks
  are pairwise disjoint, their union is all of \<open>0, ..., N - 1\<close>, every index occurs exactly
  once in them, the test set of fold \<open>i\<close> holds the rows of \<open>X\<close> and \<open>Y\<close> at block \<open>i\<close>, and
  its training set the rows at the indices outside block \<open>i\<close>.
\<close>

theorem kFoldSplits_blocks_partition:
  assumes "valid self" and "is_shuffle (getNum self) idxs"
    and "1 < k" and "k \<le> int (getNum self)"
  shows "\<exists>tests self'.
     length tests = nat k \<and>
     (\<forall>i < length tests. \<forall>j < length tests. i \<noteq> j \<longrightarrow> set (tests ! i) \<inter> set (tests ! j) = {}) \<and>
     (\<Union>t\<in>set tests. set t) = {0..<getNum self} \<and>
     mset (concat tests) = mset [0..<getNum self] \<and>
     kFoldSplits idxs self k =
       (Inr (map (\<lambda>t. rows_at (X self) (complement (getNum self) t)) tests,
             map (\<lambda>t. rows_at (Y self) (complement (getNum self) t)) tests,
             map (rows_at (X self)) tests,
             map (rows_at (Y self)) tests), self')"
proof -
  from assms(3) have k0: "0 < k" by simp
  from kFoldSplits_partition[OF assms(1,2) k0 assms(4)] assms(3)
  obtain tests self' where len: "length tests = nat k"
    and ms: "mset (concat tests) = mset [0..<getNum self]"
    and r: "kFoldSplits idxs self k =
       (Inr (map (\<lambda>t. rows_at (X self) (complement (getNum self) t)) tests,
             map (\<lambda>t. rows_at (Y self) (complement (getNum self) t)) tests,
             map (rows_at (X self)) tests,
             map (rows_at (Y self)) tests), self')"
    unfolding kfold_partition_def getNum_def by auto
  have "\<forall>i < length tests. \<forall>j < length tests. i \<noteq> j \<longrightarrow> set (tests ! i) \<inter> set (tests ! j) = {}"
    using partition_disjoint[OF ms] by blast
  moreover have "(\<Union>t\<in>set tests. set t) = {0..<getNum self}"
    using ms by (rule partition_cover)
  ultimately show ?thesis using len ms r by blast
qed

theorem kFoldSplits_blocks_partition_witness:
  "valid example_data \<and> is_shuffle (getNum example_data) [3, 1, 5, 0, 2, 4] \<and>
   (1::int) < 3 \<and> 3 \<le> int (getNum example_data) \<and>
   (\<exists>tests self'.
     length tests = nat 3 \<and>
     (\<forall>i < length tests. \<forall>j < length tests. i \<noteq> j \<longrightarrow> set (tests ! i) \<inter> set (tests ! j) = {}) \<and>
     (\<Union>t\<in>set tests. set t) = {0..<getNum example_data} \<and>
     mset (concat tests) = mset [0..<getNum example_data] \<and>
     kFoldSplits [3, 1, 5, 0, 2, 4] example_data 3 =
       (Inr (map (\<lambda>t. rows_at (X example_data) (complement (getNum example_data) t)) tests,
             map (\<lambda>t. rows_at (Y example_data) (complement (getNum example_data) t)) tests,
             map (rows_at (X example_data)) tests,
             map (rows_at (Y example_data)) tests), self'))"
proof -
  have sh: "is_shuffle (getNum example_data) [3, 1, 5, 0, 2, 4]"
    using example_shuffle by (simp only: example_num)
  have k: "(1::int) < 3" "3 \<le> int (getNum example_data)"
    by (simp_all add: example_num)
  from kFoldSplits_blocks_partition[OF example_valid sh k] example_valid sh k
  show ?thesis by blast
qed

text \<open>
  C1: the cache of the folds is keyed on \<open>k\<close>. After \<open>kFoldSplits(k)\<close> has returned a
  partition, a call with the same \<open>k\<close> returns that very partition and leaves the object
  as it is, whatever the shuffle would give (nothing is recomputed); a call with another
  valid \<open>k'\<close> stores and returns the partition computed afresh from the new shuffle, which
  is a valid \<open>k'\<close>-fold partition and differs from the one cached for \<open>k\<close>.
\<close>

theorem kFoldSplits_memo_keyed_on_k:
  assumes "valid self" and "kFoldSplits idxs self k = (Inr ret, self')"
  shows "kFoldSplits idxs' self' k = (Inr ret, self') \<and>
         (k' \<noteq> k \<and> 0 < k' \<and> k' \<le> int (getNum self) \<and> is_shuffle (getNum self) idxs' \<longrightarrow>
            (\<exists>ret'. kFoldSplits idxs' self' k' =
                       (Inr ret', self'\<lparr>splits := Some ret', nFolds := Some k'\<rparr>) \<and>
                    compute_splits idxs' (X self) (Y self) k' = Inr ret' \<and>
                    kfold_partition (X self) (Y self) k' ret' \<and>
                    length (fst ret') = nat k' \<and> ret' \<noteq> ret))"
proof -
  note s = kFoldSplits_success[OF assms(2)]
  from assms(1) have len: "length (rows (Y self)) = length (rows (X self))"
    by (simp add: valid_def)
  from s have same: "kFoldSplits idxs' self' k = (Inr ret, self')"
    by (simp add: kFoldSplits_cached)
  from s have k: "0 < k" "k \<le> int (length (rows (X self)))"
    by (simp_all add: getNum_def)
  from s valid_cached[OF assms(1), of k ret]
  obtain i0 where "compute_splits i0 (X self) (Y self) k = Inr ret"
    by auto
  then have lr: "length (fst ret) = nat k"
    using compute_splits_length[OF _ k len, of i0 "fst ret" "fst (snd ret)" "fst (snd (snd ret))" "snd (snd (snd ret))"]
    by simp
  have other: "\<exists>ret'. kFoldSplits idxs' self' k' =
                       (Inr ret', self'\<lparr>splits := Some ret', nFolds := Some k'\<rparr>) \<and>
                    compute_splits idxs' (X self) (Y self) k' = Inr ret' \<and>
                    kfold_partition (X self) (Y self) k' ret' \<and>
                    length (fst ret') = nat k' \<and> ret' \<noteq> ret"
    if h: "k' \<noteq> k" "0 < k'" "k' \<le> int (getNum self)" "is_shuffle (getNum self) idxs'"
  proof -
    from s h(1) have none: "cached_splits self' k' = None"
      by (auto simp: cached_splits_def split: option.splits if_splits)
    from h have k': "k' \<le> int (length (rows (X self)))" "is_shuffle (length (rows (X self))) idxs'"
      by (simp_all add: getNum_def)
    from compute_splits_partition[OF k'(2) h(2) k'(1) len]
    obtain ret' where ret': "compute_splits idxs' (X self) (Y self) k' = Inr ret'"
      "kfold_partition (X self) (Y self) k' ret'" by blast
    have lr': "length (fst ret') = nat k'"
      using compute_splits_length[OF _ h(2) k'(1) len, of idxs' "fst ret'" "fst (snd ret')" "fst (snd (snd ret'))" "snd (snd (snd ret'))"] ret'(1)
      by simp
    from h(1,2) k(1) lr lr' have "ret' \<noteq> ret" by auto
    moreover from s h ret'(1) none
    have "kFoldSplits idxs' self' k' = (Inr ret', self'\<lparr>splits := Some ret', nFolds := Some k'\<rparr>)"
      by (simp add: kFoldSplits_fresh)
    ultimately show ?thesis using ret' lr' by blast
  qed
  from same other show ?thesis by blast
qed

theorem kFoldSplits_memo_keyed_on_k_witness:
  "valid example_data \<and>
   kFoldSplits [3, 1, 5, 0, 2, 4] example_data 3 = (Inr example_ret3, example_cached3) \<and>
   kFoldSplits [0, 1, 2, 3, 4, 5] example_cached3 3 = (Inr example_ret3, example_cached3) \<and>
   (2::int) \<noteq> 3 \<and> (0::int) < 2 \<and> 2 \<le> int (getNum example_data) \<and>
   is_shuffle (getNum example_data) [0, 1, 2, 3, 4, 5] \<and>
   (\<exists>ret'. kFoldSplits [0, 1, 2, 3, 4, 5] example_cached3 2 =
             (Inr ret', example_cached3\<lparr>splits := Some ret', nFolds := Some 2\<rparr>) \<and>
           compute_splits [0, 1, 2, 3, 4, 5] (X example_data) (Y example_data) 2 = Inr ret' \<and>
           kfold_partition (X example_data) (Y example_data) 2 ret' \<and>
           length (fst ret') = nat 2 \<and> ret' \<noteq> example_ret3)"
proof -
  have sh: "is_shuffle (getNum example_data) [0, 1, 2, 3, 4, 5]"
    by (simp add: example_num is_shuffle_def upt_rec)
  have k: "(2::int) \<noteq> 3" "(0::int) < 2" "2 \<le> int (getNum example_data)"
    by (simp_all add: example_num)
  from kFoldSplits_memo_keyed_on_k[OF example_valid example_fold3, of "[0, 1, 2, 3, 4, 5]" 2]
    example_valid example_fold3 sh k
  show ?thesis by blast
qed

subsection \<open>Slicing and ranges\<close>

lemma take_dims_map:
  assumes "\<forall>i\<in>set dims. 0 \<le> i \<and> i < int n"
  shows "take_dims (map f [0..<n]) dims = Inr (map (\<lambda>i. f (nat i)) dims)"
  using assms by (auto simp: take_dims_def list_all_iff)

lemma take_dims_all: "take_dims (map f [0..<n]) (map int [0..<n]) = Inr (map f [0..<n])"
  by (simp add: take_dims_map o_def)

lemma take_dims_length:
  "take_dims a dims = Inr r \<Longrightarrow> length r = length dims"
  by (auto simp: take_dims_def split: if_splits)

lemma fold_max_Max: "fold max xs x = Max (insert x (set xs))"
  using Max.set_eq_fold[of x xs] by simp

lemma fold_min_Min: "fold min xs x = Min (insert x (set xs))"
  using Min.set_eq_fold[of x xs] by simp

lemma amax0_eq:
  "rows A \<noteq> [] \<Longrightarrow> amax0 A = Inr (map (\<lambda>j. Max (set (column A j))) [0..<ncols A])"
  by (cases "rows A") (simp_all add: amax0_def column_def fold_max_Max)

lemma amin0_eq:
  "rows A \<noteq> [] \<Longrightarrow> amin0 A = Inr (map (\<lambda>j. Min (set (column A j))) [0..<ncols A])"
  by (cases "rows A") (simp_all add: amin0_def column_def fold_min_Min)

lemma compute_xranges_eq:
  "rows A \<noteq> [] \<Longrightarrow> compute_xranges A = Inr (map (range_direct A) [0..<ncols A])"
  by (simp add: compute_xranges_def amax0_eq amin0_eq map2_map_map range_direct_def)

lemma compute_xranges_empty: "rows A = [] \<Longrightarrow> compute_xranges A = Inl ValueError"
  by (simp add: compute_xranges_def amax0_def)

lemma inputRange_eq:
  assumes "valid self" "1 \<le> getNum self"
  shows "inputRange self dims0 =
     (take_dims (map (range_direct (X self)) [0..<getDim self]) (dims_or_all self dims0),
      self\<lparr>xranges := Some (map (range_direct (X self)) [0..<getDim self])\<rparr>)"
proof -
  from assms(2) have ne: "rows (X self) \<noteq> []" by (auto simp: getNum_def)
  show ?thesis
  proof (cases "xranges self")
    case None
    then show ?thesis
      by (simp add: inputRange_def compute_xranges_eq[OF ne] getDim_def)
  next
    case (Some xr)
    with assms(1) have "xr = map (range_direct (X self)) [0..<getDim self]"
      by (simp add: valid_def cache_ok_def compute_xranges_eq[OF ne] getDim_def)
    with Some show ?thesis by (simp add: inputRange_def)
  qed
qed

lemma inputRange_empty:
  assumes "valid self" "getNum self = 0"
  shows "inputRange self dims0 = (Inl ValueError, self)"
proof -
  from assms(2) have e: "rows (X self) = []" by (simp add: getNum_def)
  with assms(1) have "xranges self = None"
    by (cases "xranges self") (simp_all add: valid_def cache_ok_def compute_xranges_empty)
  with e show ?thesis by (simp add: inputRange_def compute_xranges_empty)
qed

lemma inputRange_valid:
  assumes "valid self"
  shows "valid (snd (inputRange self dims0))"
proof (cases "getNum self = 0")
  case True
  with assms show ?thesis by (simp add: inputRange_empty)
next
  case False
  then have n: "1 \<le> getNum self" by simp
  then have ne: "rows (X self) \<noteq> []" by (auto simp: getNum_def)
  from assms show ?thesis
    by (auto simp: inputRange_eq[OF assms n] valid_def cache_ok_def compute_xranges_eq[OF ne]
        getDim_def getNum_def split: option.splits)
qed

subsection \<open>Claim on inputRange\<close>

text \<open>
  C8: on a valid dataset with at least one row, for a list \<open>dims\<close> of dimensions,
  \<open>inputRange(dims)\<close> returns for each requested dimension \<open>d\<close> the range computed directly,
  \<open>max(X[:,d]) - min(X[:,d])\<close>; with no argument it returns the ranges of all \<open>D\<close>
  dimensions. After a first call, whatever it asked for, the cache holds the ranges of all
  \<open>D\<close> dimensions; a call that finds a cache returns a slice of it and changes nothing; and
  the slice of the cache left by the first call is again the direct computation.
\<close>

theorem inputRange_cache_correct:
  assumes "valid self" and "1 \<le> getNum self"
    and "\<forall>i\<in>set dims. 0 \<le> i \<and> i < int (getDim self)"
  shows "fst (inputRange self (Some dims)) = Inr (map (\<lambda>i. range_direct (X self) (nat i)) dims) \<and>
         fst (inputRange self None) = Inr (map (range_direct (X self)) [0..<getDim self]) \<and>
         xranges (snd (inputRange self dims1)) =
           Some (map (range_direct (X self)) [0..<getDim self]) \<and>
         (\<forall>xr. xranges self = Some xr \<longrightarrow>
            inputRange self (Some dims) = (take_dims xr dims, self)) \<and>
         inputRange (snd (inputRange self dims1)) (Some dims) =
           (Inr (map (\<lambda>i. range_direct (X self) (nat i)) dims), snd (inputRange self dims1))"
proof -
  let ?all = "map (range_direct (X self)) [0..<getDim self]"
  let ?s1 = "snd (inputRange self dims1)"
  have slice: "take_dims ?all dims = Inr (map (\<lambda>i. range_direct (X self) (nat i)) dims)"
    using assms(3) by (rule take_dims_map)
  have 1: "fst (inputRange self (Some dims)) = Inr (map (\<lambda>i. range_direct (X self) (nat i)) dims)"
    by (simp add: inputRange_eq[OF assms(1,2)] dims_or_all_def slice)
  have 2: "fst (inputRange self None) = Inr ?all"
    by (simp add: inputRange_eq[OF assms(1,2)] dims_or_all_def take_dims_all)
  have s1: "?s1 = self\<lparr>xranges := Some ?all\<rparr>"
    by (simp add: inputRange_eq[OF assms(1,2)])
  then have 3: "xranges ?s1 = Some ?all" by simp
  have 4: "\<forall>xr. xranges self = Some xr \<longrightarrow>
            inputRange self (Some dims) = (take_dims xr dims, self)"
    by (simp add: inputRange_def dims_or_all_def)
  have "inputRange ?s1 (Some dims) = (take_dims ?all dims, ?s1)"
    using 3 by (simp add: inputRange_def dims_or_all_def)
  with slice have 5: "inputRange ?s1 (Some dims) =
      (Inr (map (\<lambda>i. range_direct (X self) (nat i)) dims), ?s1)"
    by simp
  from 1 2 3 4 5 show ?thesis by blast
qed

lemma example_range: "range_direct (X example_data) 0 = 5"
  by (simp add: range_direct_def column_def example_data_def example_X_def)

lemma example_dim: "getDim example_data = 1"
  by (simp add: getDim_def example_data_def example_X_def)

theorem inputRange_cache_correct_witness:
  "valid example_data \<and> 1 \<le> getNum example_data \<and>
   fst (inputRange example_data (Some [0])) = Inr [5] \<and>
   fst (inputRange example_data None) = Inr [5] \<and>
   xranges (snd (inputRange example_data (Some []))) = Some [5] \<and>
   inputRange (snd (inputRange example_data (Some []))) (Some [0]) =
     (Inr [5], snd (inputRange example_data (Some [])))"
proof -
  have n: "1 \<le> getNum example_data" by (simp add: example_num)
  have d: "\<forall>i\<in>set [0::int]. 0 \<le> i \<and> i < int (getDim example_data)"
    by (simp add: example_dim)
  from inputRange_cache_correct[OF example_valid n d, of "Some []"] example_valid n
  show ?thesis by (simp add: example_range example_dim)
qed

subsection \<open>Sorted distinct values and their gaps\<close>

lemma distinct_remdups_adj_sorted: "sorted xs \<Longrightarrow> distinct (remdups_adj xs)"
proof (induction xs rule: remdups_adj.induct)
  case (3 x y xs)
  show ?case
  proof (cases "x = y")
    case True
    with 3 show ?thesis by simp
  next
    case False
    with "3.prems" have "x \<notin> set (y # xs)" by auto
    moreover from 3 False have "distinct (remdups_adj (y # xs))" by simp
    ultimately show ?thesis using False by simp
  qed
qed simp_all

lemma unique_eq: "unique a = sorted_list_of_set (set a)"
proof -
  have "sorted (unique a)" "distinct (unique a)" "set (unique a) = set a"
    by (simp_all add: unique_def sorted_remdups_adj distinct_remdups_adj_sorted)
  then show ?thesis
    by (metis sorted_list_of_set.idem_if_sorted_distinct)
qed

lemma length_unique: "length (unique a) = card (set a)"
  by (simp add: unique_eq)

lemma diff_eq: "diff ys = adjacent_gaps ys"
proof (rule nth_equalityI)
  show "length (diff ys) = length (adjacent_gaps ys)"
    by (simp add: diff_def adjacent_gaps_def)
next
  fix i assume "i < length (diff ys)"
  then have i: "i < length ys - 1" by (simp add: diff_def)
  then show "diff ys ! i = adjacent_gaps ys ! i"
    by (simp add: diff_def adjacent_gaps_def nth_tl nth_butlast)
qed

lemma amin_eq: "amin ds = (if ds = [] then Inl ValueError else Inr (Min (set ds)))"
  by (cases ds) (simp_all add: amin_def fold_min_Min)

lemma adjacent_gaps_Nil: "adjacent_gaps ys = [] \<longleftrightarrow> length ys < 2"
  by (auto simp: adjacent_gaps_def)

lemma column_sep:
  "amin (diff (unique col)) =
     (if card (set col) < 2 then Inl ValueError else Inr (min_gap col))"
  by (simp add: amin_eq diff_eq adjacent_gaps_Nil length_unique min_gap_def)
     (simp add: unique_eq)

lemma sorted_distinct_nth_less:
  assumes "sorted ys" "distinct ys" "i < j" "j < length ys"
  shows "ys ! i < (ys ! j :: real)"
proof -
  from assms have "ys ! i \<le> ys ! j" by (simp add: sorted_nth_mono)
  moreover from assms have "ys ! i \<noteq> ys ! j" by (simp add: nth_eq_iff_index_eq)
  ultimately show ?thesis by simp
qed

lemma adjacent_gaps_nth:
  "i < length ys - 1 \<Longrightarrow> adjacent_gaps ys ! i = ys ! Suc i - ys ! i"
  by (simp add: adjacent_gaps_def)

lemma length_adjacent_gaps: "length (adjacent_gaps ys) = length ys - 1"
  by (simp add: adjacent_gaps_def)

lemma adjacent_gaps_mem:
  "i < length ys - 1 \<Longrightarrow> ys ! Suc i - ys ! i \<in> set (adjacent_gaps ys)"
  by (simp add: adjacent_gaps_def)

lemma adjacent_gaps_elem:
  assumes "g \<in> set (adjacent_gaps ys)"
  obtains i where "i < length ys - 1" "g = ys ! Suc i - ys ! i"
  using assms by (auto simp: adjacent_gaps_def)

text \<open>
  The least gap between neighbours is the least distance between any two distinct values
  of the column: it is attained by two values, and no two distinct values are closer.
\<close>

lemma min_gap_least:
  assumes "2 \<le> card (set col)"
  shows "(\<exists>a\<in>set col. \<exists>b\<in>set col. a < b \<and> b - a = min_gap col) \<and>
         (\<forall>a\<in>set col. \<forall>b\<in>set col. a < b \<longrightarrow> min_gap col \<le> b - a) \<and>
         0 < min_gap col"
proof -
  define ys where "ys = sorted_list_of_set (set col)"
  have s: "sorted ys" and d: "distinct ys" and st: "set ys = set col"
    and len: "length ys = card (set col)"
    by (simp_all add: ys_def)
  have ne: "set (adjacent_gaps ys) \<noteq> {}"
    using assms len length_adjacent_gaps[of ys] by (cases "adjacent_gaps ys") auto
  have mg: "min_gap col = Min (set (adjacent_gaps ys))"
    by (simp add: min_gap_def ys_def)
  have "Min (set (adjacent_gaps ys)) \<in> set (adjacent_gaps ys)"
    using ne by (intro Min_in) simp_all
  then have "min_gap col \<in> set (adjacent_gaps ys)"
    by (simp add: mg)
  then obtain i where i: "i < length ys - 1" "min_gap col = ys ! Suc i - ys ! i"
    by (rule adjacent_gaps_elem)
  from i(1) have il: "i < length ys" "Suc i < length ys" by simp_all
  then have "ys ! i \<in> set ys" "ys ! Suc i \<in> set ys"
    by (simp_all only: nth_mem)
  then have in1: "ys ! i \<in> set col" "ys ! Suc i \<in> set col"
    by (simp_all only: st)
  have lt: "ys ! i < ys ! Suc i"
    using s d il(2) by (intro sorted_distinct_nth_less) simp_all
  from i(2) have eq: "ys ! Suc i - ys ! i = min_gap col" by simp
  have attained: "\<exists>a\<in>set col. \<exists>b\<in>set col. a < b \<and> b - a = min_gap col"
    using in1 lt eq by blast
  have lower: "min_gap col \<le> b - a" if ab: "a \<in> set col" "b \<in> set col" "a < b" for a b
  proof -
    from ab(1,2) have "a \<in> set ys" "b \<in> set ys" by (simp_all only: st)
    then obtain p q where p: "p < length ys" "ys ! p = a" and q: "q < length ys" "ys ! q = b"
      unfolding in_set_conv_nth by blast
    have "p < q"
    proof (rule ccontr)
      assume "\<not> p < q"
      then have "q \<le> p" by simp
      with s p(1) have "ys ! q \<le> ys ! p" by (simp add: sorted_nth_mono)
      with p q ab(3) show False by simp
    qed
    then have "Suc p \<le> q" by simp
    with s q(1) have le: "ys ! Suc p \<le> ys ! q" by (simp add: sorted_nth_mono)
    from \<open>p < q\<close> q(1) have pl: "p < length ys - 1" by simp
    have "Min (set (adjacent_gaps ys)) \<le> ys ! Suc p - ys ! p"
      using adjacent_gaps_mem[OF pl] by (intro Min_le) simp_all
    with le p(2) q(2) show ?thesis by (simp add: mg)
  qed
  from lt eq have "0 < min_gap col" by simp
  with attained lower show ?thesis by blast
qed

subsection \<open>The loop of minSeparation\<close>

lemma minseps_loop_ok:
  assumes "\<forall>i\<in>set todo. 2 \<le> card (set (column A i))"
  shows "minseps_loop A todo ms =
     Inr (fold (\<lambda>i ms. ms[i := min_gap (column A i)]) todo ms)"
  using assms
  by (induction todo arbitrary: ms) (simp_all add: column_sep)

lemma minseps_loop_fails:
  assumes "\<exists>i\<in>set todo. card (set (column A i)) < 2"
  shows "minseps_loop A todo ms = Inl ValueError"
  using assms
proof (induction todo arbitrary: ms)
  case Nil
  then show ?case by simp
next
  case (Cons i todo)
  show ?case
  proof (cases "card (set (column A i)) < 2")
    case True
    then show ?thesis by (simp add: column_sep)
  next
    case False
    with Cons.prems have "\<exists>i\<in>set todo. card (set (column A i)) < 2" by auto
    with Cons.IH False show ?thesis by (simp add: column_sep)
  qed
qed

lemma fold_update_upt:
  "n \<le> length ms \<Longrightarrow>
   fold (\<lambda>i ms. ms[i := f i]) [0..<n] ms = map f [0..<n] @ drop n ms"
proof (induction n)
  case 0
  then show ?case by simp
next
  case (Suc n)
  then have n: "n < length ms" by simp
  have d: "drop n ms = ms ! n # drop (Suc n) ms"
    using n by (simp add: Cons_nth_drop_Suc)
  have "fold (\<lambda>i ms. ms[i := f i]) [0..<Suc n] ms = (map f [0..<n] @ drop n ms)[n := f n]"
    using Suc by simp
  also have "\<dots> = map f [0..<n] @ (drop n ms)[0 := f n]"
    by (simp add: list_update_append)
  also have "\<dots> = map f [0..<n] @ f n # drop (Suc n) ms"
    by (subst d) simp
  finally show ?case by simp
qed

lemma compute_minseps_eq:
  "compute_minseps A =
     (if \<exists>d < ncols A. card (set (column A d)) < 2 then Inl ValueError
      else Inr (map (\<lambda>d. min_gap (column A d)) [0..<ncols A]))"
proof (cases "\<exists>d < ncols A. card (set (column A d)) < 2")
  case True
  then have "\<exists>i\<in>set [0..<ncols A]. card (set (column A i)) < 2" by auto
  from minseps_loop_fails[OF this] True show ?thesis by (simp add: compute_minseps_def)
next
  case False
  then have "\<forall>i\<in>set [0..<ncols A]. 2 \<le> card (set (column A i))"
    by (metis atLeastLessThan_iff not_less set_upt)
  from minseps_loop_ok[OF this] False show ?thesis
    by (simp add: compute_minseps_def fold_update_upt)
qed

subsection \<open>Claims on minSeparation\<close>

lemma compute_minseps_degenerate: "degenerate A \<Longrightarrow> compute_minseps A = Inl ValueError"
  by (simp add: compute_minseps_eq degenerate_def)

lemma compute_minseps_ok:
  "\<not> degenerate A \<Longrightarrow>
   compute_minseps A = Inr (map (\<lambda>d. min_gap (column A d)) [0..<ncols A])"
  by (simp add: compute_minseps_eq degenerate_def)

lemma minSeparation_degenerate:
  assumes "valid self" "degenerate (X self)"
  shows "minSeparation self dims0 = (Inl ValueError, self)"
proof -
  from assms have "minseps self = None"
    by (cases "minseps self") (simp_all add: valid_def cache_ok_def compute_minseps_degenerate)
  with assms(2) show ?thesis
    by (simp add: minSeparation_def compute_minseps_degenerate)
qed

lemma minSeparation_eq:
  assumes "valid self" "\<not> degenerate (X self)"
  shows "minSeparation self dims0 =
     (take_dims (map (\<lambda>d. min_gap (column (X self) d)) [0..<getDim self]) (dims_or_all self dims0),
      self\<lparr>minseps := Some (map (\<lambda>d. min_gap (column (X self) d)) [0..<getDim self])\<rparr>)"
proof (cases "minseps self")
  case None
  then show ?thesis
    by (simp add: minSeparation_def compute_minseps_ok[OF assms(2)] getDim_def)
next
  case (Some ms)
  with assms have "ms = map (\<lambda>d. min_gap (column (X self) d)) [0..<getDim self]"
    by (simp add: valid_def cache_ok_def compute_minseps_ok getDim_def)
  with Some show ?thesis by (simp add: minSeparation_def)
qed

lemma minSeparation_valid:
  assumes "valid self"
  shows "valid (snd (minSeparation self dims0))"
proof (cases "degenerate (X self)")
  case True
  with assms show ?thesis by (simp add: minSeparation_degenerate)
next
  case False
  from assms show ?thesis
    by (auto simp: minSeparation_eq[OF assms False] valid_def cache_ok_def
        compute_minseps_ok[OF False] getDim_def getNum_def split: option.splits)
qed

lemma take_dims_not_ValueError: "take_dims a dims \<noteq> Inl ValueError"
  by (simp add: take_dims_def)

text \<open>
  C2: on a valid dataset, \<open>minSeparation\<close> raises the \<open>ValueError\<close> of the minimum of an
  empty sequence (the specification's \<open>DegenerateDimensionError\<close>) if and only if some
  input dimension has fewer than two distinct values. Otherwise, for a list \<open>dims\<close> of
  dimensions it returns for each of them the least difference between neighbours in the
  increasing sequence of the distinct values of that column, and with no argument these
  values for all \<open>D\<close> dimensions; the first call, whatever it asks for, caches the values of
  all \<open>D\<close> dimensions; a call that finds a cache returns a slice of it and changes nothing.
\<close>

theorem minSeparation_spec:
  assumes "valid self"
  shows "(fst (minSeparation self dims0) = Inl ValueError \<longleftrightarrow> degenerate (X self)) \<and>
         (\<not> degenerate (X self) \<and> (\<forall>i\<in>set dims. 0 \<le> i \<and> i < int (getDim self)) \<longrightarrow>
            fst (minSeparation self (Some dims)) =
              Inr (map (\<lambda>i. min_gap (column (X self) (nat i))) dims) \<and>
            fst (minSeparation self None) =
              Inr (map (\<lambda>d. min_gap (column (X self) d)) [0..<getDim self]) \<and>
            minseps (snd (minSeparation self dims0)) =
              Some (map (\<lambda>d. min_gap (column (X self) d)) [0..<getDim self]) \<and>
            minSeparation (snd (minSeparation self dims0)) (Some dims) =
              (Inr (map (\<lambda>i. min_gap (column (X self) (nat i))) dims),
               snd (minSeparation self dims0))) \<and>
         (\<forall>ms. minseps self = Some ms \<longrightarrow>
            minSeparation self dims0 = (take_dims ms (dims_or_all self dims0), self))"
proof -
  let ?all = "map (\<lambda>d. min_gap (column (X self) d)) [0..<getDim self]"
  let ?s1 = "snd (minSeparation self dims0)"
  have raises: "fst (minSeparation self dims0) = Inl ValueError \<longleftrightarrow> degenerate (X self)"
  proof (cases "degenerate (X self)")
    case True
    with assms show ?thesis by (simp add: minSeparation_degenerate)
  next
    case False
    with assms show ?thesis
      by (simp add: minSeparation_eq take_dims_not_ValueError)
  qed
  have cached: "\<forall>ms. minseps self = Some ms \<longrightarrow>
            minSeparation self dims0 = (take_dims ms (dims_or_all self dims0), self)"
    by (simp add: minSeparation_def)
  have vals: "fst (minSeparation self (Some dims)) =
              Inr (map (\<lambda>i. min_gap (column (X self) (nat i))) dims) \<and>
            fst (minSeparation self None) = Inr ?all \<and>
            minseps ?s1 = Some ?all \<and>
            minSeparation ?s1 (Some dims) =
              (Inr (map (\<lambda>i. min_gap (column (X self) (nat i))) dims), ?s1)"
    if nd: "\<not> degenerate (X self)" and d: "\<forall>i\<in>set dims. 0 \<le> i \<and> i < int (getDim self)"
  proof -
    have slice: "take_dims ?all dims = Inr (map (\<lambda>i. min_gap (column (X self) (nat i))) dims)"
      using d by (rule take_dims_map)
    have 1: "fst (minSeparation self (Some dims)) =
              Inr (map (\<lambda>i. min_gap (column (X self) (nat i))) dims)"
      by (simp add: minSeparation_eq[OF assms nd] dims_or_all_def slice)
    have 2: "fst (minSeparation self None) = Inr ?all"
      by (simp add: minSeparation_eq[OF assms nd] dims_or_all_def take_dims_all)
    have 3: "minseps ?s1 = Some ?all"
      by (simp add: minSeparation_eq[OF assms nd])
    then have "minSeparation ?s1 (Some dims) = (take_dims ?all dims, ?s1)"
      by (simp add: minSeparation_def dims_or_all_def)
    with slice 1 2 3 show ?thesis by simp
  qed
  from raises cached vals show ?thesis by blast
qed

lemma example_not_degenerate: "\<not> degenerate (X example_data)"
  by (simp add: degenerate_def column_def example_data_def example_X_def)

lemma example_min_gap: "min_gap (column (X example_data) 0) = 1"
proof -
  have "amin (diff (unique (column (X example_data) 0))) = Inr 1"
    by (simp add: amin_def diff_def unique_def column_def example_data_def example_X_def)
  moreover have "\<not> card (set (column (X example_data) 0)) < 2"
    by (simp add: column_def example_data_def example_X_def)
  ultimately show ?thesis by (simp add: column_sep)
qed

lemma constant_valid: "valid constant_data"
  by (simp add: valid_def cache_ok_def wf_array_def constant_data_def)

lemma constant_degenerate: "degenerate (X constant_data)"
proof -
  have "card (set (column (X constant_data) 1)) < 2"
    by (simp add: column_def constant_data_def)
  moreover have "(1::nat) < ncols (X constant_data)" by (simp add: constant_data_def)
  ultimately show ?thesis unfolding degenerate_def by blast
qed

theorem minSeparation_spec_witness:
  "valid example_data \<and> \<not> degenerate (X example_data) \<and>
   fst (minSeparation example_data (Some [0])) = Inr [1] \<and>
   fst (minSeparation example_data None) = Inr [1] \<and>
   minseps (snd (minSeparation example_data (Some []))) = Some [1] \<and>
   minSeparation (snd (minSeparation example_data (Some []))) (Some [0]) =
     (Inr [1], snd (minSeparation example_data (Some []))) \<and>
   valid constant_data \<and> degenerate (X constant_data) \<and>
   fst (minSeparation constant_data (Some [0])) = Inl ValueError"
proof -
  have d: "\<forall>i\<in>set [0::int]. 0 \<le> i \<and> i < int (getDim example_data)"
    by (simp add: example_dim)
  from minSeparation_spec[OF example_valid, of "Some []" "[0]"] example_not_degenerate d
  have "fst (minSeparation example_data (Some [0])) = Inr [1] \<and>
   fst (minSeparation example_data None) = Inr [1] \<and>
   minseps (snd (minSeparation example_data (Some []))) = Some [1] \<and>
   minSeparation (snd (minSeparation example_data (Some []))) (Some [0]) =
     (Inr [1], snd (minSeparation example_data (Some [])))"
    by (simp add: example_min_gap example_dim)
  moreover from minSeparation_spec[OF constant_valid, of "Some [0]" "[]"] constant_degenerate
  have "fst (minSeparation constant_data (Some [0])) = Inl ValueError" by simp
  ultimately show ?thesis
    using example_valid example_not_degenerate constant_valid constant_degenerate by simp
qed

lemma set_column: "set (column A d) = (\<lambda>r. r ! d) ` set (rows A)"
  by (simp add: column_def)

lemma row_permutation_same_rows:
  "row_permutation A B \<Longrightarrow> same_rows_up_to_duplicates A B"
  by (auto simp: row_permutation_def same_rows_up_to_duplicates_def dest: mset_eq_setD)

lemma same_rows_same_columns:
  "same_rows_up_to_duplicates A B \<Longrightarrow> same_column_values A B"
  by (simp add: same_rows_up_to_duplicates_def same_column_values_def set_column)

lemma min_gap_cong: "set c1 = set c2 \<Longrightarrow> min_gap c1 = min_gap c2"
  by (simp add: min_gap_def)

lemma same_columns_compute_minseps:
  assumes "same_column_values A B"
  shows "compute_minseps A = compute_minseps B"
proof -
  from assms have n: "ncols A = ncols B"
    and c: "\<And>d. d < ncols B \<Longrightarrow> set (column A d) = set (column B d)"
    by (simp_all add: same_column_values_def)
  from n c have "(\<exists>d < ncols A. card (set (column A d)) < 2) \<longleftrightarrow>
      (\<exists>d < ncols B. card (set (column B d)) < 2)"
    by auto
  moreover have "map (\<lambda>d. min_gap (column A d)) [0..<ncols A] =
      map (\<lambda>d. min_gap (column B d)) [0..<ncols B]"
    using n c by (auto intro: min_gap_cong)
  ultimately show ?thesis by (simp add: compute_minseps_eq)
qed

lemma minSeparation_by_compute:
  assumes "valid self"
  shows "fst (minSeparation self dims0) =
     (case compute_minseps (X self) of
        Inl e \<Rightarrow> Inl e
      | Inr ms \<Rightarrow> take_dims ms (dims_or_all self dims0))"
proof (cases "degenerate (X self)")
  case True
  with assms show ?thesis
    by (simp add: minSeparation_degenerate compute_minseps_degenerate)
next
  case False
  with assms show ?thesis
    by (simp add: minSeparation_eq compute_minseps_ok getDim_def)
qed

text \<open>
  C9: if the input matrices of two valid datasets are rearrangements of each other's rows,
  or have the same rows up to repetition, or more generally have the same set of values in
  every column, then \<open>minSeparation\<close> has the same outcome on both, for every argument
  \<open>dims\<close> (and whatever is cached in either).
\<close>

theorem minSeparation_invariant:
  assumes "valid a" and "valid b"
    and "row_permutation (X a) (X b) \<or> same_rows_up_to_duplicates (X a) (X b) \<or>
         same_column_values (X a) (X b)"
  shows "fst (minSeparation a dims0) = fst (minSeparation b dims0)"
proof -
  from assms(3) have s: "same_column_values (X a) (X b)"
    by (auto dest: row_permutation_same_rows same_rows_same_columns)
  then have "getDim a = getDim b" by (simp add: same_column_values_def getDim_def)
  then have "dims_or_all a dims0 = dims_or_all b dims0"
    by (simp add: dims_or_all_def split: option.splits)
  with same_columns_compute_minseps[OF s] show ?thesis
    by (simp add: minSeparation_by_compute assms(1,2) split: sum.splits)
qed

lemma shuffled_valid: "valid shuffled_data"
  by (simp add: valid_def cache_ok_def wf_array_def shuffled_data_def example_data_def example_Y_def)

lemma repeated_valid: "valid repeated_data"
  by (simp add: valid_def cache_ok_def wf_array_def repeated_data_def example_data_def)

lemma shuffled_permutation: "row_permutation (X example_data) (X shuffled_data)"
  by (simp add: row_permutation_def shuffled_data_def example_data_def example_X_def)

lemma repeated_same_rows: "same_rows_up_to_duplicates (X example_data) (X repeated_data)"
  by (auto simp: same_rows_up_to_duplicates_def repeated_data_def example_data_def example_X_def)

theorem minSeparation_invariant_witness:
  "valid example_data \<and> valid shuffled_data \<and> valid repeated_data \<and>
   row_permutation (X example_data) (X shuffled_data) \<and>
   same_rows_up_to_duplicates (X example_data) (X repeated_data) \<and>
   fst (minSeparation example_data None) = fst (minSeparation shuffled_data None) \<and>
   fst (minSeparation example_data None) = fst (minSeparation repeated_data None)"
  using minSeparation_invariant[OF example_valid shuffled_valid, of None]
    minSeparation_invariant[OF example_valid repeated_valid, of None]
    example_valid shuffled_valid repeated_valid shuffled_permutation repeated_same_rows
  by blast

subsection \<open>Claim on getLengthscaleBounds\<close>

text \<open>
  C7: on a valid dataset with at least one row whose dimensions all have at least two
  distinct values, for a request \<open>dims\<close> of dimensions (or none, meaning all),
  \<open>getLengthscaleBounds(dims)\<close> returns a matrix of two rows and one column per requested
  dimension: row 0 is what \<open>minSeparation(dims)\<close> returns, row 1 is what \<open>inputRange(dims)\<close>
  returns with every entry multiplied by 2.
\<close>

theorem getLengthscaleBounds_rows:
  assumes "valid self" and "1 \<le> getNum self" and "\<not> degenerate (X self)"
    and "\<forall>i\<in>set (dims_or_all self dims0). 0 \<le> i \<and> i < int (getDim self)"
  shows "\<exists>lower r.
     fst (minSeparation self dims0) = Inr lower \<and>
     fst (inputRange self dims0) = Inr r \<and>
     length lower = length (dims_or_all self dims0) \<and>
     length r = length (dims_or_all self dims0) \<and>
     fst (getLengthscaleBounds self dims0) =
       Inr \<lparr>ncols = length (dims_or_all self dims0), rows = [lower, map (\<lambda>v. v * 2) r]\<rparr>"
proof -
  let ?dims = "dims_or_all self dims0"
  let ?ms = "map (\<lambda>d. min_gap (column (X self) d)) [0..<getDim self]"
  let ?xr = "map (range_direct (X self)) [0..<getDim self]"
  let ?lower = "map (\<lambda>i. min_gap (column (X self) (nat i))) ?dims"
  let ?r = "map (\<lambda>i. range_direct (X self) (nat i)) ?dims"
  let ?s1 = "self\<lparr>minseps := Some ?ms\<rparr>"
  have d: "dims_or_all self (Some ?dims) = ?dims" "dims_or_all ?s1 (Some ?dims) = ?dims"
    by (simp_all add: dims_or_all_def)
  have lo: "take_dims ?ms ?dims = Inr ?lower"
    using assms(4) by (rule take_dims_map)
  have up: "take_dims ?xr ?dims = Inr ?r"
    using assms(4) by (rule take_dims_map)
  have m0: "minSeparation self dims0 = (Inr ?lower, ?s1)"
    by (simp add: minSeparation_eq[OF assms(1,3)] lo)
  have m: "minSeparation self (Some ?dims) = (Inr ?lower, ?s1)"
    by (simp add: minSeparation_eq[OF assms(1,3)] d lo)
  have v1: "valid ?s1"
    using minSeparation_valid[OF assms(1), of dims0] m0 by simp
  have n1: "1 \<le> getNum ?s1" using assms(2) by (simp add: getNum_def)
  have r0: "fst (inputRange self dims0) = Inr ?r"
    by (simp add: inputRange_eq[OF assms(1,2)] up)
  have g1: "getDim ?s1 = getDim self" "X ?s1 = X self"
    by (simp_all add: getDim_def)
  have "fst (inputRange ?s1 (Some ?dims)) = take_dims ?xr ?dims"
    unfolding inputRange_eq[OF v1 n1] d g1 by simp
  with up have r1: "fst (inputRange ?s1 (Some ?dims)) = Inr ?r"
    by simp
  then obtain s2 where "inputRange ?s1 (Some ?dims) = (Inr ?r, s2)"
    by (cases "inputRange ?s1 (Some ?dims)") simp
  with m have "fst (getLengthscaleBounds self dims0) =
      Inr \<lparr>ncols = length ?dims, rows = [?lower, map (\<lambda>v. v * 2) ?r]\<rparr>"
    by (simp add: getLengthscaleBounds_def Let_def vstack_def)
  with m0 r0 show ?thesis by simp
qed

theorem getLengthscaleBounds_rows_witness:
  "valid example_data \<and> 1 \<le> getNum example_data \<and> \<not> degenerate (X example_data) \<and>
   fst (minSeparation example_data None) = Inr [1] \<and>
   fst (inputRange example_data None) = Inr [5] \<and>
   (\<exists>lower r.
     fst (minSeparation example_data None) = Inr lower \<and>
     fst (inputRange example_data None) = Inr r \<and>
     length lower = length (dims_or_all example_data None) \<and>
     length r = length (dims_or_all example_data None) \<and>
     fst (getLengthscaleBounds example_data None) =
       Inr \<lparr>ncols = length (dims_or_all example_data None), rows = [lower, map (\<lambda>v. v * 2) r]\<rparr>) \<and>
   fst (getLengthscaleBounds example_data None) = Inr \<lparr>ncols = 1, rows = [[1], [10]]\<rparr>"
proof -
  have n: "1 \<le> getNum example_data" by (simp add: example_num)
  have d: "\<forall>i\<in>set (dims_or_all example_data None). 0 \<le> i \<and> i < int (getDim example_data)"
    by (simp add: dims_or_all_def example_dim)
  have ms: "fst (minSeparation example_data None) = Inr [1]"
    by (simp add: minSeparation_eq[OF example_valid example_not_degenerate] dims_or_all_def
        example_dim take_dims_def example_min_gap)
  have xr: "fst (inputRange example_data None) = Inr [5]"
    by (simp add: inputRange_eq[OF example_valid n] dims_or_all_def example_dim take_dims_def
        example_range)
  note w = getLengthscaleBounds_rows[OF example_valid n example_not_degenerate d]
  from w ms xr have "fst (getLengthscaleBounds example_data None) = Inr \<lparr>ncols = 1, rows = [[1], [10]]\<rparr>"
    by (auto simp: dims_or_all_def example_dim)
  with w ms xr example_valid n example_not_degenerate show ?thesis by blast
qed

subsection \<open>Construction\<close>

lemma init_valid:
  assumes "wf_array x" "wf_array y" "init x y xlabel ylabel = Inr self"
  shows "valid self"
  using assms
  by (auto simp: init_def valid_def cache_ok_def split: if_splits)

lemma init_shape:
  assumes "init x y xlabel ylabel = Inr self"
  shows "X self = x \<and> Y self = y \<and> getNum self = length (rows x) \<and> getDim self = ncols x \<and>
         ncols y = 1 \<and> length (rows y) = length (rows x)"
  using assms
  by (auto simp: init_def getNum_def getDim_def split: if_splits)

lemma default_xlabel_10: "default_xlabel 9 = ''$x_{10}$''"
  by (simp add: default_xlabel_def)

lemma example_init: "init example_X example_Y PyNone PyNone = Inr example_data"
  by (simp add: init_def example_X_def example_Y_def example_data_def default_xlabel_def)

text \<open>
  C3, as the code has it: when the argument for the input labels is absent, or is neither a
  list nor a tuple, or its length differs from \<open>D\<close>, the constructor sets the input labels
  to the generated sequence \<open>$x_{1}$\<close>, \<open>$x_{2}$\<close>, ..., \<open>$x_{D}$\<close> (the dimension in
  decimal, counted from 1, inside the markup \<open>$x_{\<close> ... \<open>}$\<close>), one label per dimension;
  when it is a list or a tuple of length exactly \<open>D\<close>, its entries are the labels.
\<close>

theorem init_XLabel:
  assumes "init x y xlabel ylabel = Inr self"
  shows "(\<forall>l. (xlabel = PyList l \<or> xlabel = PyTuple l) \<and> length l = ncols x \<longrightarrow> XLabel self = l) \<and>
         (xlabel = PyNone \<or> xlabel = PyOther \<or>
            (\<exists>l. (xlabel = PyList l \<or> xlabel = PyTuple l) \<and> length l \<noteq> ncols x) \<longrightarrow>
          XLabel self = map (\<lambda>d. ''$x_{'' @ format_nat (d + 1) @ ''}$'') [0..<ncols x]) \<and>
         length (XLabel self) = ncols x"
  using assms
  by (cases xlabel) (auto simp: init_def default_xlabel_def split: if_splits)

theorem init_XLabel_witness:
  "init example_X example_Y PyNone PyNone = Inr example_data \<and>
   XLabel example_data = map (\<lambda>d. ''$x_{'' @ format_nat (d + 1) @ ''}$'') [0..<ncols example_X] \<and>
   XLabel example_data = [''$x_{1}$''] \<and>
   init example_X example_Y (PyList [''height'']) PyNone =
     Inr (example_data\<lparr>XLabel := [''height'']\<rparr>) \<and>
   XLabel (example_data\<lparr>XLabel := [''height'']\<rparr>) = [''height'']"
proof -
  have i2: "init example_X example_Y (PyList [''height'']) PyNone =
     Inr (example_data\<lparr>XLabel := [''height'']\<rparr>)"
    by (simp add: init_def example_X_def example_Y_def example_data_def)
  have "length [''height''] = ncols example_X" by (simp add: example_X_def)
  with init_XLabel[OF example_init] init_XLabel[OF i2] example_init i2
  show ?thesis by (simp add: example_data_def)
qed

text \<open>
  The claim as the specification words it asks for the labels \<open>x_1\<close>, ..., \<open>x_D\<close>. With the
  labels absent and one dimension the constructor gives the single label \<open>$x_{1}$\<close>, which is
  not the string \<open>x_1\<close>.
\<close>

theorem init_XLabel_counterexample:
  "init example_X example_Y PyNone PyNone = Inr example_data \<and>
   XLabel example_data = [''$x_{1}$''] \<and> XLabel example_data \<noteq> [''x_1'']"
  using example_init by (simp add: example_data_def)

subsection \<open>The bounds keep the dataset valid\<close>

lemma getLengthscaleBounds_valid:
  assumes "valid self"
  shows "valid (snd (getLengthscaleBounds self dims0))"
proof -
  let ?dims = "dims_or_all self dims0"
  obtain o1 s1 where m: "minSeparation self (Some ?dims) = (o1, s1)"
    by (cases "minSeparation self (Some ?dims)")
  with minSeparation_valid[OF assms, of "Some ?dims"] have v1: "valid s1" by simp
  show ?thesis
  proof (cases o1)
    case (Inl e)
    with m v1 show ?thesis by (simp add: getLengthscaleBounds_def Let_def)
  next
    case (Inr lower)
    obtain o2 s2 where r: "inputRange s1 (Some ?dims) = (o2, s2)"
      by (cases "inputRange s1 (Some ?dims)")
    with inputRange_valid[OF v1, of "Some ?dims"] have "valid s2" by simp
    with m Inr r show ?thesis
      by (cases o2) (simp_all add: getLengthscaleBounds_def Let_def)
  qed
qed

lemma getPeriodBounds_eq: "getPeriodBounds self dims0 = getLengthscaleBounds self dims0"
  by (simp add: getPeriodBounds_def)

end
